theory Spec2Isabelle
  imports Main "HOL-Library.Sublist" "HOL-Library.Multiset"
begin

section \<open>Text primitives of the search engine\<close>

text \<open>
  Python strings are modelled as lists of characters, one \<^typ>\<open>char\<close> per code point.
  A \<^typ>\<open>char\<close> holds the code points 0 to 255, so the strings of the model are the
  Python strings whose code points lie below 256, and the three character classes below
  are those of Python on these code points.
\<close>

text \<open>
  \<open>str.isspace\<close>, the white space of \<open>str.split()\<close> and \<open>str.strip()\<close>: the
  control characters 9 to 13 and 28 to 31, the space, and in the upper half the next-line
  character 133 and the no-break space 160.
\<close>

definition is_space :: "char \<Rightarrow> bool" where
  "is_space c = (let n = (of_char c :: nat) in
     (9 \<le> n \<and> n \<le> 13) \<or> (28 \<le> n \<and> n \<le> 32) \<or> n = 133 \<or> n = 160)"

text \<open>
  The class \<open>\w\<close> of \<open>re\<close> on \<open>str\<close>: the underscore and what \<open>str.isalnum\<close>
  accepts. Below 128 these are the digits and the letters; above, the letters 170, 181,
  186, 192 to 214, 216 to 246 and 248 to 255 and the numeric characters 178, 179, 185 and
  188 to 190.
\<close>

definition is_word :: "char \<Rightarrow> bool" where
  "is_word c = (let n = (of_char c :: nat) in
     (48 \<le> n \<and> n \<le> 57) \<or> (65 \<le> n \<and> n \<le> 90) \<or> n = 95 \<or> (97 \<le> n \<and> n \<le> 122) \<or>
     n = 170 \<or> n = 178 \<or> n = 179 \<or> n = 181 \<or> n = 185 \<or> n = 186 \<or>
     (188 \<le> n \<and> n \<le> 190) \<or> (192 \<le> n \<and> n \<le> 214) \<or> (216 \<le> n \<and> n \<le> 246) \<or>
     (248 \<le> n \<and> n \<le> 255))"

text \<open>
  \<open>str.lower\<close> on one character: the capitals \<open>A..Z\<close> and the capitals 192 to 214
  and 216 to 222 of the upper half move up by 32, every other character stays.
\<close>

definition lower_char :: "char \<Rightarrow> char" where
  "lower_char c = (let n = (of_char c :: nat) in
     if (65 \<le> n \<and> n \<le> 90) \<or> (192 \<le> n \<and> n \<le> 214) \<or> (216 \<le> n \<and> n \<le> 222)
     then char_of (n + 32) else c)"

definition lower :: "string \<Rightarrow> string" where
  "lower s = map lower_char s"

text \<open>\<open>str.strip()\<close>: leading and trailing white space removed.\<close>

definition strip :: "string \<Rightarrow> string" where
  "strip s = rev (dropWhile is_space (rev (dropWhile is_space s)))"

text \<open>\<open>sub in s\<close> on strings: a scan for the first position where \<open>sub\<close> starts.\<close>

fun str_contains :: "string \<Rightarrow> string \<Rightarrow> bool" where
  "str_contains sub [] = (sub = [])"
| "str_contains sub (c # cs) = (prefix sub (c # cs) \<or> str_contains sub cs)"

text \<open>\<open>s.find(sub)\<close>: the first index where \<open>sub\<close> starts; \<open>None\<close> stands for \<open>-1\<close>.\<close>

fun str_find :: "string \<Rightarrow> string \<Rightarrow> nat option" where
  "str_find sub [] = (if sub = [] then Some 0 else None)"
| "str_find sub (c # cs) =
     (if prefix sub (c # cs) then Some 0 else map_option Suc (str_find sub cs))"

text \<open>
  \<open>s.count(sub)\<close>: the scan goes left to right and, after a match, resumes behind it, so
  the occurrences counted do not overlap; the empty \<open>sub\<close> is counted between all
  characters.
\<close>

function str_count :: "string \<Rightarrow> string \<Rightarrow> nat" where
  "str_count sub s =
     (if sub = [] then length s + 1
      else if s = [] then 0
      else if prefix sub s then 1 + str_count sub (drop (length sub) s)
      else str_count sub (tl s))"
  by pat_completeness auto
termination
  by (relation "measure (\<lambda>(sub, s). length s)") (auto simp: neq_Nil_conv)

declare str_count.simps [simp del]

text \<open>
  \<open>re.findall(r'\b\w+\b', s)\<close>: the maximal runs of word characters, left to right.
\<close>

function findall_words :: "string \<Rightarrow> string list" where
  "findall_words [] = []"
| "findall_words (c # cs) =
     (if is_word c then takeWhile is_word (c # cs) # findall_words (dropWhile is_word cs)
      else findall_words cs)"
  by pat_completeness auto
termination
  by (relation "measure length") (auto simp: length_dropWhile_le less_Suc_eq_le)

text \<open>\<open>s.split()\<close>: the maximal runs of characters that are not white space.\<close>

function split_ws :: "string \<Rightarrow> string list" where
  "split_ws [] = []"
| "split_ws (c # cs) =
     (if is_space c then split_ws cs
      else takeWhile (\<lambda>x. \<not> is_space x) (c # cs) # split_ws (dropWhile (\<lambda>x. \<not> is_space x) cs))"
  by pat_completeness auto
termination
  by (relation "measure length") (auto simp: length_dropWhile_le less_Suc_eq_le)

text \<open>
  The token list of \<open>search_files\<close>:
  \<^verbatim>\<open>[word.lower() for word in re.findall(r'\b\w+\b', original_query) if len(word) > 1]\<close>
\<close>

definition keywords_of :: "string \<Rightarrow> string list" where
  "keywords_of original_query =
     map lower (filter (\<lambda>word. length word > 1) (findall_words original_query))"


section \<open>Proximity check\<close>

text \<open>
  The dictionary \<open>word_positions\<close> maps a token to the list of word indices where it
  was seen. It is an association list in insertion order with one entry per key, so its
  length is \<open>len(word_positions)\<close>.
\<close>

type_synonym positions = "(string \<times> nat list) list"

text \<open>
  \<^verbatim>\<open>if word_clean not in word_positions: word_positions[word_clean] = []\<close> followed by
  \<^verbatim>\<open>word_positions[word_clean].append(i)\<close>
\<close>

fun dict_append :: "string \<Rightarrow> nat \<Rightarrow> positions \<Rightarrow> positions" where
  "dict_append k i [] = [(k, [i])]"
| "dict_append k i ((k', ps) # d) =
     (if k' = k then (k', ps @ [i]) # d else (k', ps) # dict_append k i d)"

text \<open>
  The loop \<^verbatim>\<open>for i, word in enumerate(words)\<close>; \<open>word_clean\<close> is
  \<^verbatim>\<open>re.sub(r'[^\w]', '', word.lower())\<close>.
\<close>

fun collect_positions :: "string list \<Rightarrow> (nat \<times> string) list \<Rightarrow> positions \<Rightarrow> positions" where
  "collect_positions keywords [] word_positions = word_positions"
| "collect_positions keywords ((i, word) # rest) word_positions =
     (let word_clean = filter is_word (lower word)
      in collect_positions keywords rest
           (if word_clean \<in> set keywords then dict_append word_clean i word_positions
            else word_positions))"

text \<open>The innermost loop: some position of the keyword within 50 words of \<open>pos1\<close>.\<close>

definition found_nearby :: "nat \<Rightarrow> nat list \<Rightarrow> bool" where
  "found_nearby pos1 ps = list_ex (\<lambda>pos2. abs (int pos2 - int pos1) \<le> 50) ps"

text \<open>
  The loop \<^verbatim>\<open>for keyword in keywords[1:]\<close> with its \<open>break\<close>; \<open>None\<close> is the
  \<open>KeyError\<close> of \<^verbatim>\<open>word_positions[keyword]\<close>.
\<close>

fun found_all :: "positions \<Rightarrow> nat \<Rightarrow> string list \<Rightarrow> bool option" where
  "found_all word_positions pos1 [] = Some True"
| "found_all word_positions pos1 (keyword # rest) =
     (case map_of word_positions keyword of
        None \<Rightarrow> None
      | Some ps \<Rightarrow>
          if found_nearby pos1 ps then found_all word_positions pos1 rest else Some False)"

text \<open>The loop \<^verbatim>\<open>for pos1 in first_keyword_positions\<close>, returning at the first anchor that works.\<close>

fun any_anchor :: "positions \<Rightarrow> string list \<Rightarrow> nat list \<Rightarrow> bool option" where
  "any_anchor word_positions others [] = Some False"
| "any_anchor word_positions others (pos1 # rest) =
     (case found_all word_positions pos1 others of
        None \<Rightarrow> None
      | Some True \<Rightarrow> Some True
      | Some False \<Rightarrow> any_anchor word_positions others rest)"

text \<open>\<open>check_phrase_proximity(content, keywords)\<close>; \<open>None\<close> is a raised \<open>KeyError\<close>.\<close>

definition check_phrase_proximity :: "string \<Rightarrow> string list \<Rightarrow> bool option" where
  "check_phrase_proximity content keywords =
     (if length keywords < 2 then Some False
      else
        let words = split_ws content;
            word_positions = collect_positions keywords (enumerate 0 words) []
        in if length word_positions \<noteq> length keywords then Some False
           else (case map_of word_positions (keywords ! 0) of
                   None \<Rightarrow> None
                 | Some first_keyword_positions \<Rightarrow>
                     any_anchor word_positions (drop 1 keywords) first_keyword_positions))"

section \<open>Snippets\<close>

text \<open>\<open>sep.join(parts)\<close>\<close>

fun str_join :: "string \<Rightarrow> string list \<Rightarrow> string" where
  "str_join sep [] = []"
| "str_join sep [x] = x"
| "str_join sep (x # y # zs) = x @ sep @ str_join sep (y # zs)"

text \<open>
  The slice \<open>s[:k]\<close> for an integer \<open>k\<close>: a negative \<open>k\<close> counts from the end.
\<close>

definition slice_to :: "int \<Rightarrow> 'a list \<Rightarrow> 'a list" where
  "slice_to k s = (if 0 \<le> k then take (nat k) s else take (length s - nat (- k)) s)"

text \<open>The window shared by both snippet functions: 50 characters on each side of the hit.\<close>

definition context_window :: "nat \<Rightarrow> string \<Rightarrow> nat \<Rightarrow> nat \<Rightarrow> string" where
  "context_window max_len content pos n =
     (let start = pos - 50;
          end = min (length content) (pos + n + 50);
          snippet = drop start (take end content);
          snippet = str_join '' '' (split_ws snippet);
          snippet = (if start > 0 then ''...'' @ snippet else snippet);
          snippet = (if end < length content then snippet @ ''...'' else snippet)
      in take max_len snippet)"

definition get_snippet_for_phrase :: "nat \<Rightarrow> string \<Rightarrow> string \<Rightarrow> string" where
  "get_snippet_for_phrase max_len content phrase =
     (case str_find (lower phrase) (lower content) of
        None \<Rightarrow> take max_len content @ ''...''
      | Some pos \<Rightarrow> context_window max_len content pos (length phrase))"

text \<open>\<open>re.split\<close> on a run of delimiter characters: the pieces between the runs.\<close>

function split_runs :: "(char \<Rightarrow> bool) \<Rightarrow> string \<Rightarrow> string list" where
  "split_runs delim s =
     (case dropWhile (\<lambda>c. \<not> delim c) s of
        [] \<Rightarrow> [s]
      | d # rest \<Rightarrow>
          takeWhile (\<lambda>c. \<not> delim c) s # split_runs delim (dropWhile delim rest))"
  by pat_completeness auto
termination
proof (relation "measure (\<lambda>(delim, s). length s)", simp, goal_cases)
  case (1 delim s d rest)
  have "length (dropWhile delim rest) \<le> length rest"
    by (rule length_dropWhile_le)
  moreover have "length (d # rest) \<le> length s"
    using length_dropWhile_le [of "\<lambda>c. \<not> delim c" s] 1 by simp
  ultimately show ?case by simp
qed

declare split_runs.simps [simp del]

text \<open>\<open>re.split(r'[.!?\n]+', content)\<close>\<close>

definition is_sentence_end :: "char \<Rightarrow> bool" where
  "is_sentence_end c = (c = CHR ''.'' \<or> c = CHR ''!'' \<or> c = CHR ''?'' \<or> c = CHR 0x0A)"

definition split_sentences :: "string \<Rightarrow> string list" where
  "split_sentences s = split_runs is_sentence_end s"

text \<open>The loop over the sentences, keeping the first one with the highest score.\<close>

fun best_sentence_loop :: "string list \<Rightarrow> string list \<Rightarrow> string \<times> nat \<Rightarrow> string \<times> nat" where
  "best_sentence_loop keywords [] best = best"
| "best_sentence_loop keywords (sentence # rest) (best_sentence, best_score) =
     (let sentence = strip sentence
      in if sentence = [] then best_sentence_loop keywords rest (best_sentence, best_score)
         else
           let sentence_lower = lower sentence;
               score = length (filter (\<lambda>kw. str_contains kw sentence_lower) keywords)
           in if score > best_score then best_sentence_loop keywords rest (sentence, score)
              else best_sentence_loop keywords rest (best_sentence, best_score))"

text \<open>The fallback loop over the keywords, returning at the first keyword found.\<close>

fun first_keyword_context :: "nat \<Rightarrow> string \<Rightarrow> string list \<Rightarrow> string" where
  "first_keyword_context max_len content [] = take max_len content @ ''...''"
| "first_keyword_context max_len content (keyword # rest) =
     (case str_find keyword (lower content) of
        None \<Rightarrow> first_keyword_context max_len content rest
      | Some pos \<Rightarrow> context_window max_len content pos (length keyword))"

definition get_snippet_for_keywords :: "nat \<Rightarrow> string \<Rightarrow> string list \<Rightarrow> string" where
  "get_snippet_for_keywords max_len content keywords =
     (let (best_sentence, best_score) =
            best_sentence_loop keywords (split_sentences content) ([], 0)
      in if best_sentence \<noteq> [] then
           (if length best_sentence > max_len then
              slice_to (int max_len - 3) best_sentence @ ''...''
            else best_sentence)
         else first_keyword_context max_len content keywords)"


section \<open>The scan\<close>

text \<open>
  The limits set in \<open>setup_variables\<close> and the extensions ticked in the window; the
  values of the source are in \<open>default_config\<close>.
\<close>

record config =
  MAX_FILE_SIZE :: nat
  MAX_SNIPPET_LENGTH :: nat
  MAX_RESULTS_DISPLAY :: nat
  MAX_TOTAL_RESPONSE_LENGTH :: nat
  MAX_FILES_TO_SEARCH :: nat
  selected_extensions :: "string list"

definition default_config :: "string list \<Rightarrow> config" where
  "default_config exts =
     \<lparr> MAX_FILE_SIZE = 10 * 1024 * 1024,
       MAX_SNIPPET_LENGTH = 200,
       MAX_RESULTS_DISPLAY = 8,
       MAX_TOTAL_RESPONSE_LENGTH = 50000,
       MAX_FILES_TO_SEARCH = 10000,
       selected_extensions = exts \<rparr>"

text \<open>
  A file as the scan sees it: its name in the directory listing, what
  \<open>os.path.getsize\<close> returns and what \<open>open\<close> followed by \<open>read\<close> returns (the text
  decoded with \<open>errors='ignore'\<close>); \<open>None\<close> is a raised exception.
\<close>

record file_entry =
  name :: string
  getsize :: "nat option"
  read_text :: "string option"

text \<open>What \<open>os.walk\<close> yields: each directory with the files listed in it.\<close>

type_synonym tree = "(string \<times> file_entry list) list"

text \<open>One entry of the dictionaries appended to the three match lists.\<close>

record result =
  path :: string
  filename :: string
  snippet :: string
  size_bytes :: nat
  relevance :: nat
  match_type :: string

text \<open>
  The local variables of \<open>search_files\<close> that the loops update. \<open>visited\<close> is not a
  variable of the source: it logs the paths handed to \<open>os.path.getsize\<close>, the first
  access to a file, in the order of the calls.
\<close>

record scan_state =
  exact_matches :: "result list"
  phrase_matches :: "result list"
  keyword_matches :: "result list"
  files_searched :: nat
  files_skipped :: nat
  files_error :: nat
  visited :: "string list"

definition init_state :: scan_state where
  "init_state =
     \<lparr> exact_matches = [], phrase_matches = [], keyword_matches = [],
       files_searched = 0, files_skipped = 0, files_error = 0, visited = [] \<rparr>"

text \<open>\<open>os.path.join\<close> and \<open>os.path.basename\<close>, as \<open>posixpath\<close> has them.\<close>

definition path_join :: "string \<Rightarrow> string \<Rightarrow> string" where
  "path_join a b =
     (if b \<noteq> [] \<and> hd b = CHR ''/'' then b
      else if a = [] \<or> last a = CHR ''/'' then a @ b
      else a @ ''/'' @ b)"

definition basename :: "string \<Rightarrow> string" where
  "basename p = rev (takeWhile (\<lambda>c. c \<noteq> CHR ''/'') (rev p))"

text \<open>\<^verbatim>\<open>any(file.lower().endswith(ext.lower()) for ext in selected_extensions)\<close>\<close>

definition has_selected_extension :: "config \<Rightarrow> string \<Rightarrow> bool" where
  "has_selected_extension cfg file =
     list_ex (\<lambda>ext. suffix (lower ext) (lower file)) (selected_extensions cfg)"

text \<open>\<^verbatim>\<open>sum(content_lower.count(kw) for kw in keywords)\<close>\<close>

definition sum_counts :: "string \<Rightarrow> string list \<Rightarrow> nat" where
  "sum_counts content_lower keywords = sum_list (map (\<lambda>kw. str_count kw content_lower) keywords)"

text \<open>The third branch: \<^verbatim>\<open>elif all(keyword in content_lower for keyword in keywords)\<close>.\<close>

definition keyword_branch ::
  "config \<Rightarrow> string list \<Rightarrow> string \<Rightarrow> nat \<Rightarrow> string \<Rightarrow> scan_state \<Rightarrow> scan_state" where
  "keyword_branch cfg keywords file_path file_size content s =
     (let content_lower = lower content
      in if list_all (\<lambda>keyword. str_contains keyword content_lower) keywords then
           s\<lparr> keyword_matches := keyword_matches s @
                [\<lparr> path = file_path, filename = basename file_path,
                   snippet = get_snippet_for_keywords (MAX_SNIPPET_LENGTH cfg) content keywords,
                   size_bytes = file_size,
                   relevance = sum_counts content_lower keywords * 5,
                   match_type = ''KEYWORD MATCH'' \<rparr>] \<rparr>
         else s)"

text \<open>
  The body of the \<open>with open\<close> block: the three tests in the order of the source. A
  \<open>KeyError\<close> out of \<open>check_phrase_proximity\<close> lands in the handler of the file.
\<close>

definition match_content ::
  "config \<Rightarrow> string \<Rightarrow> string \<Rightarrow> string list \<Rightarrow> string \<Rightarrow> nat \<Rightarrow> string \<Rightarrow> scan_state \<Rightarrow> scan_state" where
  "match_content cfg original_query query_lower keywords file_path file_size content s =
     (let content_lower = lower content
      in if str_contains query_lower content_lower then
           s\<lparr> exact_matches := exact_matches s @
                [\<lparr> path = file_path, filename = basename file_path,
                   snippet = get_snippet_for_phrase (MAX_SNIPPET_LENGTH cfg) content original_query,
                   size_bytes = file_size,
                   relevance = 1000 + str_count query_lower content_lower * 100,
                   match_type = ''EXACT MATCH'' \<rparr>] \<rparr>
         else if length keywords > 1 then
           (case check_phrase_proximity content_lower keywords of
              None \<Rightarrow> s\<lparr> files_error := files_error s + 1 \<rparr>
            | Some True \<Rightarrow>
                s\<lparr> phrase_matches := phrase_matches s @
                     [\<lparr> path = file_path, filename = basename file_path,
                        snippet = get_snippet_for_keywords (MAX_SNIPPET_LENGTH cfg) content keywords,
                        size_bytes = file_size,
                        relevance = 500 + sum_counts content_lower keywords * 10,
                        match_type = ''PHRASE MATCH'' \<rparr>] \<rparr>
            | Some False \<Rightarrow> keyword_branch cfg keywords file_path file_size content s)
         else keyword_branch cfg keywords file_path file_size content s)"

text \<open>
  The body of the inner loop behind the test of the limit, for one file of the directory
  \<open>root\<close>: extension, size, then the content.
\<close>

definition scan_file ::
  "config \<Rightarrow> string \<Rightarrow> string \<Rightarrow> file_entry \<Rightarrow> scan_state \<Rightarrow> scan_state" where
  "scan_file cfg original_query root file s =
     (if \<not> has_selected_extension cfg (name file) then s
      else
        let file_path = path_join root (name file);
            s = s\<lparr> visited := visited s @ [file_path] \<rparr>
        in case getsize file of
             None \<Rightarrow> s\<lparr> files_error := files_error s + 1 \<rparr>
           | Some file_size \<Rightarrow>
               if file_size > MAX_FILE_SIZE cfg then s\<lparr> files_skipped := files_skipped s + 1 \<rparr>
               else if file_size = 0 then s
               else
                 let s = s\<lparr> files_searched := files_searched s + 1 \<rparr>
                 in (case read_text file of
                       None \<Rightarrow> s\<lparr> files_error := files_error s + 1 \<rparr>
                     | Some text \<Rightarrow>
                         match_content cfg original_query (lower original_query)
                           (keywords_of original_query) file_path file_size
                           (take (MAX_FILE_SIZE cfg) text) s))"

text \<open>The inner loop \<^verbatim>\<open>for file in files\<close>, which breaks once the limit is reached.\<close>

fun scan_files ::
  "config \<Rightarrow> string \<Rightarrow> string \<Rightarrow> file_entry list \<Rightarrow> scan_state \<Rightarrow> scan_state" where
  "scan_files cfg original_query root [] s = s"
| "scan_files cfg original_query root (file # files) s =
     (if files_searched s \<ge> MAX_FILES_TO_SEARCH cfg then s
      else scan_files cfg original_query root files (scan_file cfg original_query root file s))"

text \<open>The outer loop over \<open>os.walk\<close>, with the second test of the limit behind each directory.\<close>

fun walk :: "config \<Rightarrow> string \<Rightarrow> tree \<Rightarrow> scan_state \<Rightarrow> scan_state" where
  "walk cfg original_query [] s = s"
| "walk cfg original_query ((root, files) # rest) s =
     (let s = scan_files cfg original_query root files s
      in if files_searched s \<ge> MAX_FILES_TO_SEARCH cfg then s
         else walk cfg original_query rest s)"


section \<open>The report\<close>

text \<open>\<open>str(n)\<close> for a natural number.\<close>

fun str_nat :: "nat \<Rightarrow> string" where
  "str_nat n = (if n < 10 then [char_of (48 + n)] else str_nat (n div 10) @ [char_of (48 + n mod 10)])"

declare str_nat.simps [simp del]

definition sq :: char where
  "sq = CHR 0x27"

text \<open>
  The size of a file as the entry shows it. Below 1024 it is the number of bytes; above,
  the source divides as floating point and formats with \<open>:.1f\<close>: that formatting is the
  parameter \<open>fmt1f\<close>, called with the dividend and the divisor.
\<close>

definition size_str :: "(nat \<Rightarrow> nat \<Rightarrow> string) \<Rightarrow> nat \<Rightarrow> string" where
  "size_str fmt1f n =
     (if n < 1024 then str_nat n @ '' B''
      else if n < 1024 * 1024 then fmt1f n 1024 @ '' KB''
      else fmt1f n (1024 * 1024) @ '' MB'')"

definition match_indicator :: "result \<Rightarrow> string" where
  "match_indicator r =
     (if match_type r = ''EXACT MATCH'' then ''[EXACT]''
      else if match_type r = ''PHRASE MATCH'' then ''[PHRASE]''
      else ''[KEYWORD]'')"

definition result_text :: "(nat \<Rightarrow> nat \<Rightarrow> string) \<Rightarrow> nat \<Rightarrow> result \<Rightarrow> string" where
  "result_text fmt1f i r =
     ''['' @ str_nat i @ ''] '' @ match_indicator r @ '' '' @ match_type r @ '' - '' @ filename r @ ''\<newline>''
     @ ''    Path: '' @ path r @ ''\<newline>''
     @ ''    Size: '' @ size_str fmt1f (size_bytes r) @ ''\<newline>''
     @ ''    Content: '' @ snippet r @ ''\<newline>''
     @ replicate 60 CHR ''-'' @ ''\<newline>\<newline>''"

definition header ::
  "nat \<Rightarrow> nat \<Rightarrow> string \<Rightarrow> nat \<Rightarrow> nat \<Rightarrow> nat \<Rightarrow> nat \<Rightarrow> string" where
  "header searched skipped query n_exact n_phrase n_keyword n_total =
     ''SEARCH RESULTS\<newline>''
     @ ''Query: '' @ [sq] @ query @ [sq] @ ''\<newline>''
     @ ''Files searched: '' @ str_nat searched
     @ (if skipped > 0 then '' (skipped '' @ str_nat skipped @ '' large files)'' else [])
     @ ''\<newline>\<newline> MATCH SUMMARY:\<newline>''
     @ ''  Exact matches: '' @ str_nat n_exact @ ''\<newline>''
     @ ''  Phrase matches: '' @ str_nat n_phrase @ ''\<newline>''
     @ ''  Keyword matches: '' @ str_nat n_keyword @ ''\<newline>''
     @ ''  Total matches: '' @ str_nat n_total @ ''\<newline>''
     @ replicate 60 CHR ''='' @ ''\<newline>\<newline>''"

definition truncation_marker :: string where
  "truncation_marker = ''More results available but truncated to save space...\<newline>''"

text \<open>The bullet of the suggestions, one character in the source.\<close>

definition bullet :: char where
  "bullet = CHR 0xB7"

definition no_results :: string where
  "no_results =
     ''No files found matching your search.\<newline>\<newline>''
     @ ''Suggestions:\<newline>''
     @ ''  '' @ [bullet] @ '' Try different or fewer keywords\<newline>''
     @ ''  '' @ [bullet] @ '' Check if file types are selected\<newline>''
     @ ''  '' @ [bullet] @ '' Verify the directory path is correct\<newline>''
     @ ''  '' @ [bullet] @ '' Check spelling of search terms\<newline>''"

text \<open>The variables of \<open>format_prioritized_results\<close> that its loop updates.\<close>

record fmt_state =
  response_parts :: "string list"
  current_length :: nat
  displayed_count :: nat

text \<open>
  The loop \<^verbatim>\<open>for i, result in enumerate(results, 1)\<close>: it stops at
  \<open>MAX_RESULTS_DISPLAY\<close> entries, and it stops with the marker when the next entry
  does not fit.
\<close>

fun render_loop ::
  "config \<Rightarrow> (nat \<Rightarrow> nat \<Rightarrow> string) \<Rightarrow> (nat \<times> result) list \<Rightarrow> fmt_state \<Rightarrow> fmt_state" where
  "render_loop cfg fmt1f [] st = st"
| "render_loop cfg fmt1f ((i, r) # rest) st =
     (if displayed_count st \<ge> MAX_RESULTS_DISPLAY cfg then st
      else
        let text = result_text fmt1f i r
        in if current_length st + length text > MAX_TOTAL_RESPONSE_LENGTH cfg then
             st\<lparr> response_parts := response_parts st @ [truncation_marker] \<rparr>
           else
             render_loop cfg fmt1f rest
               (st\<lparr> response_parts := response_parts st @ [text],
                    current_length := current_length st + length text,
                    displayed_count := displayed_count st + 1 \<rparr>))"

definition remaining_summary :: "nat \<Rightarrow> nat \<Rightarrow> string" where
  "remaining_summary remaining n_exact =
     ''\<newline>'' @ str_nat remaining @ '' additional matches not shown.\<newline>''
     @ (if n_exact > 0 then ''Exact matches are shown first for best relevance.\<newline>'' else [])"

definition format_prioritized_results ::
  "config \<Rightarrow> (nat \<Rightarrow> nat \<Rightarrow> string) \<Rightarrow> result list \<Rightarrow> nat \<Rightarrow> nat \<Rightarrow> string \<Rightarrow>
     result list \<Rightarrow> result list \<Rightarrow> result list \<Rightarrow> string" where
  "format_prioritized_results cfg fmt1f results searched skipped query exact phrase keyword =
     (let h = header searched skipped query (length exact) (length phrase) (length keyword)
                (length results);
          st = \<lparr> response_parts = [h], current_length = length h, displayed_count = 0 \<rparr>
      in if results \<noteq> [] then
           let st = render_loop cfg fmt1f (enumerate 1 results) st
           in if length results > displayed_count st then
                concat (response_parts st @
                  [remaining_summary (length results - displayed_count st) (length exact)])
              else concat (response_parts st)
         else concat (response_parts st @ [no_results]))"

section \<open>The search\<close>

text \<open>
  \<^verbatim>\<open>bucket.sort(key=lambda x: x['relevance'], reverse=True)\<close>: Python's sort is stable,
  also when reversed. The library's \<^const>\<open>sort_key\<close> is a stable ascending sort, here on
  the negated score.
\<close>

definition sort_by_relevance :: "result list \<Rightarrow> result list" where
  "sort_by_relevance rs = sort_key (\<lambda>x. - int (relevance x)) rs"

definition error_footer :: "nat \<Rightarrow> string" where
  "error_footer n =
     ''\<newline>'' @ str_nat n @ '' files couldn'' @ [sq] @ ''t be read (permissions/encoding issues)''"

text \<open>
  What \<open>search_files\<close> hands to \<open>search_complete\<close>: the message of the early return, or
  the report. The report comes with the combined list and the final values of the local
  variables, the log of visited files among them, so that they can be spoken about; the
  early return comes with the log of the files visited before it, and it is taken before
  the walk starts.
\<close>

datatype outcome =
    EmptyQuery string "string list"
  | Report string "result list" scan_state

definition search_files ::
  "config \<Rightarrow> (nat \<Rightarrow> nat \<Rightarrow> string) \<Rightarrow> tree \<Rightarrow> string \<Rightarrow> outcome" where
  "search_files cfg fmt1f fs query =
     (let original_query = strip query;
          keywords = keywords_of original_query
      in if keywords = [] then
           EmptyQuery ''Please provide meaningful search terms (2+ characters)'' []
         else
           let s = walk cfg original_query fs init_state;
               exact = sort_by_relevance (exact_matches s);
               phrase = sort_by_relevance (phrase_matches s);
               keyword = sort_by_relevance (keyword_matches s);
               all_results = exact @ phrase @ keyword;
               response = format_prioritized_results cfg fmt1f all_results
                            (files_searched s) (files_skipped s) original_query
                            exact phrase keyword;
               response = (if files_error s > 0 then response @ error_footer (files_error s)
                           else response)
           in Report response all_results
                (s\<lparr> exact_matches := exact, phrase_matches := phrase, keyword_matches := keyword \<rparr>))"

section \<open>The simpler variant\<close>

text \<open>
  \<open>search_files\<close> of \<open>safe_chatbot.py\<close>, up to the list \<open>results\<close> and the counter
  that it hands to \<open>format_results\<close>. Its token list keeps the words longer than 2.
\<close>

definition safe_keywords_of :: "string \<Rightarrow> string list" where
  "safe_keywords_of query =
     map lower (filter (\<lambda>word. length word > 2) (findall_words query))"

definition safe_is_sentence_end :: "char \<Rightarrow> bool" where
  "safe_is_sentence_end c = (c = CHR ''.'' \<or> c = CHR ''!'' \<or> c = CHR ''?'')"

definition safe_get_snippet :: "string \<Rightarrow> string list \<Rightarrow> string" where
  "safe_get_snippet content keywords =
     (case List.find (\<lambda>sentence. list_ex (\<lambda>keyword. str_contains keyword (lower sentence)) keywords)
             (split_runs safe_is_sentence_end content) of
        Some sentence \<Rightarrow> take 200 (strip sentence) @ ''...''
      | None \<Rightarrow> take 200 content @ ''...'')"

record safe_result =
  s_path :: string
  s_filename :: string
  s_snippet :: string
  s_size :: nat

text \<open>
  The body of the loop over the files, on the pair of \<open>results\<close> and
  \<open>files_searched\<close>. Every exception inside the \<open>try\<close>, the one of
  \<open>os.path.getsize\<close> included, skips the file.
\<close>

definition safe_scan_file ::
  "config \<Rightarrow> string list \<Rightarrow> string \<Rightarrow> file_entry \<Rightarrow> safe_result list \<times> nat \<Rightarrow> safe_result list \<times> nat" where
  "safe_scan_file cfg keywords root file st =
     (case st of (results, searched) \<Rightarrow>
        if \<not> has_selected_extension cfg (name file) then (results, searched)
        else
          let file_path = path_join root (name file);
              searched = searched + 1
          in case read_text file of
               None \<Rightarrow> (results, searched)
             | Some text \<Rightarrow>
                 let content = lower text
                 in if list_all (\<lambda>keyword. str_contains keyword content) keywords then
                      (case getsize file of
                         None \<Rightarrow> (results, searched)
                       | Some n \<Rightarrow>
                           (results @
                              [\<lparr> s_path = file_path, s_filename = basename file_path,
                                 s_snippet = safe_get_snippet content keywords,
                                 s_size = n \<rparr>], searched))
                    else (results, searched))"

fun safe_walk ::
  "config \<Rightarrow> string list \<Rightarrow> tree \<Rightarrow> safe_result list \<times> nat \<Rightarrow> safe_result list \<times> nat" where
  "safe_walk cfg keywords [] st = st"
| "safe_walk cfg keywords ((root, files) # rest) st =
     safe_walk cfg keywords rest (fold (safe_scan_file cfg keywords root) files st)"

text \<open>
  \<open>NoKeywords\<close> is the early return with the message
  \<open>Please provide meaningful search terms\<close>.
\<close>

datatype safe_outcome =
    NoKeywords
  | Results "safe_result list" nat

definition safe_search_files :: "config \<Rightarrow> tree \<Rightarrow> string \<Rightarrow> safe_outcome" where
  "safe_search_files cfg fs query =
     (let keywords = safe_keywords_of query
      in if keywords = [] then NoKeywords
         else (case safe_walk cfg keywords fs ([], 0) of
                 (results, searched) \<Rightarrow> Results results searched))"

section \<open>Notions of the specification\<close>



text \<open>
  \<open>k\<close> occurrences of \<open>sub\<close> in \<open>s\<close> that do not overlap: \<open>s\<close> is \<open>k\<close> times a gap
  followed by \<open>sub\<close>, and then a rest.
\<close>

definition occurs_apart :: "string \<Rightarrow> string \<Rightarrow> nat \<Rightarrow> bool" where
  "occurs_apart sub s k =
     (\<exists>gaps rest. length gaps = k \<and> s = concat (map (\<lambda>g. g @ sub) gaps) @ rest)"

text \<open>
  A candidate: a file with a selected extension whose size can be read and lies in
  \<open>1 .. MAX_FILE_SIZE\<close>. These are the files that \<open>files_searched\<close> counts.
\<close>

definition candidate :: "config \<Rightarrow> file_entry \<Rightarrow> bool" where
  "candidate cfg file =
     (has_selected_extension cfg (name file) \<and>
      (case getsize file of None \<Rightarrow> False | Some n \<Rightarrow> 0 < n \<and> n \<le> MAX_FILE_SIZE cfg))"

text \<open>The files of a tree in the order of the walk, each with its directory.\<close>

definition all_files :: "tree \<Rightarrow> (string \<times> file_entry) list" where
  "all_files fs = concat (map (\<lambda>(root, files). map (Pair root) files) fs)"

text \<open>The number of match records that the three lists hold.\<close>

definition total_records :: "scan_state \<Rightarrow> nat" where
  "total_records s =
     length (exact_matches s) + length (phrase_matches s) + length (keyword_matches s)"

text \<open>
  A file on which sizing or reading raises: it has a selected extension, and either
  \<open>os.path.getsize\<close> fails or the size passes both tests and \<open>open\<close> or \<open>read\<close>
  fails.
\<close>

definition unreadable :: "config \<Rightarrow> file_entry \<Rightarrow> bool" where
  "unreadable cfg file =
     (has_selected_extension cfg (name file) \<and>
      (case getsize file of
         None \<Rightarrow> True
       | Some n \<Rightarrow> 0 < n \<and> n \<le> MAX_FILE_SIZE cfg \<and> read_text file = None))"

text \<open>
  A list sorted by descending score from another one, equal scores in the order they
  had before.
\<close>

definition stable_descending :: "result list \<Rightarrow> result list \<Rightarrow> bool" where
  "stable_descending before after =
     (sorted_wrt (\<lambda>x y. relevance x \<ge> relevance y) after \<and>
      mset after = mset before \<and>
      (\<forall>k. filter (\<lambda>r. relevance r = k) after = filter (\<lambda>r. relevance r = k) before))"

text \<open>
  The two loops of the walk as one loop over \<open>all_files\<close>, the limit tested before
  each file; \<open>walk_all_files\<close> below shows that it computes what \<open>walk\<close> computes.
\<close>

fun scan_all ::
  "config \<Rightarrow> string \<Rightarrow> (string \<times> file_entry) list \<Rightarrow> scan_state \<Rightarrow> scan_state" where
  "scan_all cfg original_query [] s = s"
| "scan_all cfg original_query ((root, file) # rest) s =
     (if files_searched s \<ge> MAX_FILES_TO_SEARCH cfg then s
      else scan_all cfg original_query rest (scan_file cfg original_query root file s))"

text \<open>
  The proximity test in the words of the specification. The occurrences of a token are
  the indices of the words of the content, split at white space, whose characters that
  are not word characters are stripped, that equal the token. The test holds when every
  token occurs and some occurrence of the first token has an occurrence of every other
  token at a distance of at most 50 words.
\<close>

definition occurrences_in :: "(nat \<times> string) list \<Rightarrow> string \<Rightarrow> nat list" where
  "occurrences_in words token =
     map fst (filter (\<lambda>iw. filter is_word (lower (snd iw)) = token) words)"

definition word_occurrences :: "string \<Rightarrow> string \<Rightarrow> nat list" where
  "word_occurrences content token = occurrences_in (enumerate 0 (split_ws content)) token"

definition spec_proximity :: "string \<Rightarrow> string list \<Rightarrow> bool" where
  "spec_proximity content tokens =
     (list_all (\<lambda>t. word_occurrences content t \<noteq> []) tokens \<and>
      list_ex (\<lambda>p. list_all (\<lambda>t. list_ex (\<lambda>p'. abs (int p' - int p) \<le> 50)
                                  (word_occurrences content t)) (tl tokens))
        (word_occurrences content (hd tokens)))"

text \<open>
  The parts of a report: the texts of the first \<open>k\<close> entries, the number of entries
  that the loop of \<open>format_prioritized_results\<close> shows behind a header \<open>h\<close>, and
  what follows the entries shown.
\<close>

definition entries_text :: "(nat \<Rightarrow> nat \<Rightarrow> string) \<Rightarrow> nat \<Rightarrow> result list \<Rightarrow> string list" where
  "entries_text fmt1f k results =
     map (\<lambda>ir. result_text fmt1f (fst ir) (snd ir)) (take k (enumerate 1 results))"

definition shown :: "config \<Rightarrow> (nat \<Rightarrow> nat \<Rightarrow> string) \<Rightarrow> result list \<Rightarrow> string \<Rightarrow> nat" where
  "shown cfg fmt1f results h =
     displayed_count (render_loop cfg fmt1f (enumerate 1 results)
       \<lparr> response_parts = [h], current_length = length h, displayed_count = 0 \<rparr>)"

definition report_trailer :: "config \<Rightarrow> nat \<Rightarrow> result list \<Rightarrow> nat \<Rightarrow> string" where
  "report_trailer cfg k results n_exact =
     (if results = [] then no_results
      else (if k < length results \<and> k < MAX_RESULTS_DISPLAY cfg
            then ''More results available but truncated to save space...\<newline>'' else [])
           @ (if k < length results
              then ''\<newline>'' @ str_nat (length results - k) @ '' additional matches not shown.\<newline>''
                   @ (if n_exact > 0
                      then ''Exact matches are shown first for best relevance.\<newline>'' else [])
              else []))"

text \<open>The number that a string of decimal digits writes.\<close>

definition decimal_value :: "string \<Rightarrow> nat" where
  "decimal_value s = foldl (\<lambda>a c. 10 * a + (of_char c - 48)) 0 s"

text \<open>
  The three tiers and the tier of a content for a query, in the words of the
  specification: the tiers are tried in the order Exact, ProximityPhrase, AllKeywords and
  the first one that holds is the tier of the content. Exact holds when the lower-cased
  query is a contiguous part of the lower-cased content, ProximityPhrase when there are
  at least two tokens and the proximity check answers yes, AllKeywords when every token
  is a contiguous part of the lower-cased content.
\<close>

datatype tier = Exact | ProximityPhrase | AllKeywords

definition tier_of :: "string \<Rightarrow> string \<Rightarrow> tier option" where
  "tier_of original_query content =
     (let tokens = keywords_of original_query;
          content_lower = lower content
      in if sublist (lower original_query) content_lower then Some Exact
         else if 2 \<le> length tokens \<and> check_phrase_proximity content_lower tokens = Some True
           then Some ProximityPhrase
         else if (\<forall>token \<in> set tokens. sublist token content_lower) then Some AllKeywords
         else None)"

text \<open>The record of a file in a tier, with the score and the label of that tier.\<close>

definition record_of :: "config \<Rightarrow> string \<Rightarrow> string \<Rightarrow> nat \<Rightarrow> string \<Rightarrow> tier \<Rightarrow> result" where
  "record_of cfg original_query file_path file_size content t =
     \<lparr> path = file_path, filename = basename file_path,
       snippet =
         (case t of
            Exact \<Rightarrow> get_snippet_for_phrase (MAX_SNIPPET_LENGTH cfg) content original_query
          | ProximityPhrase \<Rightarrow>
              get_snippet_for_keywords (MAX_SNIPPET_LENGTH cfg) content (keywords_of original_query)
          | AllKeywords \<Rightarrow>
              get_snippet_for_keywords (MAX_SNIPPET_LENGTH cfg) content (keywords_of original_query)),
       size_bytes = file_size,
       relevance =
         (case t of
            Exact \<Rightarrow> 1000 + 100 * str_count (lower original_query) (lower content)
          | ProximityPhrase \<Rightarrow> 500 + 10 * sum_counts (lower content) (keywords_of original_query)
          | AllKeywords \<Rightarrow> 5 * sum_counts (lower content) (keywords_of original_query)),
       match_type =
         (case t of
            Exact \<Rightarrow> ''EXACT MATCH''
          | ProximityPhrase \<Rightarrow> ''PHRASE MATCH''
          | AllKeywords \<Rightarrow> ''KEYWORD MATCH'') \<rparr>"

text \<open>
  The files that a walk searches: the candidates of the tree in the order of the walk, up
  to the limit. The match of such a file is its tier and its record when its content can
  be read and has a tier, and the matches of a tier are the records of the searched
  files with that tier, in the order of the walk.
\<close>

definition searched :: "config \<Rightarrow> tree \<Rightarrow> (string \<times> file_entry) list" where
  "searched cfg fs =
     take (MAX_FILES_TO_SEARCH cfg) (filter (\<lambda>x. candidate cfg (snd x)) (all_files fs))"

definition match_of :: "config \<Rightarrow> string \<Rightarrow> string \<times> file_entry \<Rightarrow> (tier \<times> result) option" where
  "match_of cfg original_query x =
     (case getsize (snd x) of
        None \<Rightarrow> None
      | Some n \<Rightarrow>
          (case read_text (snd x) of
             None \<Rightarrow> None
           | Some text \<Rightarrow>
               map_option
                 (\<lambda>t. (t, record_of cfg original_query (path_join (fst x) (name (snd x))) n
                            (take (MAX_FILE_SIZE cfg) text) t))
                 (tier_of original_query (take (MAX_FILE_SIZE cfg) text))))"

definition matches_in_tier :: "config \<Rightarrow> string \<Rightarrow> (string \<times> file_entry) list \<Rightarrow> tier \<Rightarrow> result list" where
  "matches_in_tier cfg original_query xs t =
     map snd (filter (\<lambda>m. fst m = t) (List.map_filter (match_of cfg original_query) xs))"

text \<open>
  The test of the simpler variant on a file, for a token list: the file has a selected
  extension, it can be read and sized, and every token is a contiguous part of its
  lower-cased content.
\<close>

definition simple_hit :: "config \<Rightarrow> string list \<Rightarrow> file_entry \<Rightarrow> bool" where
  "simple_hit cfg tokens fl =
     (has_selected_extension cfg (name fl) \<and> getsize fl \<noteq> None \<and>
      (case read_text fl of
         None \<Rightarrow> False
       | Some text \<Rightarrow> \<forall>token \<in> set tokens. sublist token (lower text)))"

section \<open>Properties of the tokenizer\<close>













section \<open>Properties of the proximity check\<close>

lemma dict_append_keys:
  "map fst (dict_append k i d) = (if k \<in> set (map fst d) then map fst d else map fst d @ [k])"
  by (induction d) (auto simp: rev_image_eqI)

lemma collect_positions_keys:
  "distinct (map fst wp) \<Longrightarrow> set (map fst wp) \<subseteq> set keywords \<Longrightarrow>
   distinct (map fst (collect_positions keywords ws wp)) \<and>
   set (map fst (collect_positions keywords ws wp)) \<subseteq> set keywords"
proof (induction ws arbitrary: wp)
  case Nil
  then show ?case by simp
next
  case (Cons iw ws)
  obtain i w where iw: "iw = (i, w)" by (cases iw)
  let ?wc = "filter is_word (lower w)"
  show ?case
  proof (cases "?wc \<in> set keywords")
    case True
    have "distinct (map fst (dict_append ?wc i wp))"
      using Cons.prems(1) by (simp add: dict_append_keys)
    moreover have "set (map fst (dict_append ?wc i wp)) \<subseteq> set keywords"
      using Cons.prems(2) True by (auto simp: dict_append_keys)
    ultimately show ?thesis
      using Cons.IH [of "dict_append ?wc i wp"] True by (simp add: iw)
  next
    case False
    then show ?thesis using Cons.IH [OF Cons.prems] by (simp add: iw)
  qed
qed

lemma length_collect_positions_le:
  "length (collect_positions keywords ws []) \<le> card (set keywords)"
proof -
  let ?wp = "collect_positions keywords ws []"
  have d: "distinct (map fst ?wp)" and s: "set (map fst ?wp) \<subseteq> set keywords"
    using collect_positions_keys [of "[]" "keywords" ws] by simp_all
  have "length ?wp = card (set (map fst ?wp))"
    using d distinct_card [of "map fst ?wp"] by simp
  also have "\<dots> \<le> card (set keywords)"
    using s by (intro card_mono) simp_all
  finally show ?thesis .
qed

text \<open>
  Claim C10. When the token list holds some token twice, \<open>check_phrase_proximity\<close>
  returns \<open>False\<close> for every content: the dictionary has one entry per distinct token
  found, so its length stays below the length of the token list and the test
  \<^verbatim>\<open>len(word_positions) != len(keywords)\<close> ends the check.
\<close>

theorem repeated_token_never_phrase:
  "\<not> distinct keywords \<Longrightarrow> check_phrase_proximity content keywords = Some False"
proof -
  assume nd: "\<not> distinct keywords"
  have "card (set keywords) \<noteq> length keywords"
    using nd card_distinct by blast
  then have lt: "card (set keywords) < length keywords"
    using card_length [of "keywords"] by simp
  have "length (collect_positions keywords (enumerate 0 (split_ws content)) []) < length keywords"
    using length_collect_positions_le [of "keywords" "enumerate 0 (split_ws content)"] lt by simp
  then show ?thesis
    by (simp add: check_phrase_proximity_def Let_def)
qed

theorem repeated_token_never_phrase_witness:
  "\<not> distinct [''fox'', ''fox''] \<and>
   check_phrase_proximity ''fox and fox'' [''fox'', ''fox''] = Some False"
  using repeated_token_never_phrase [of "[''fox'', ''fox'']" "''fox and fox''"] by simp

section \<open>Properties of the scan\<close>

lemma str_contains_sublist: "str_contains sub s = sublist sub s"
  by (induction s) (auto simp: sublist_Cons_right)

lemma strip_decomp:
  "dropWhile is_space s = strip s @ rev (takeWhile is_space (rev (dropWhile is_space s)))"
proof -
  let ?s' = "dropWhile is_space s"
  have "rev (dropWhile is_space (rev ?s')) @ rev (takeWhile is_space (rev ?s')) = rev (rev ?s')"
    by (simp only: rev_append [symmetric] takeWhile_dropWhile_id)
  then show ?thesis by (simp add: strip_def)
qed

lemma sublist_strip: "sublist (strip s) s"
proof -
  have "s = takeWhile is_space s @ strip s @ rev (takeWhile is_space (rev (dropWhile is_space s)))"
    using strip_decomp [of s] takeWhile_dropWhile_id [of is_space s] by simp
  then show ?thesis unfolding sublist_def by blast
qed

lemma sublist_lower: "sublist a b \<Longrightarrow> sublist (lower a) (lower b)"
  unfolding sublist_def lower_def by (metis map_append)

lemma contains_stripped:
  "sublist (lower query) content \<Longrightarrow> str_contains (lower (strip query)) content"
  using sublist_lower [OF sublist_strip [of query]] sublist_order.order_trans
  by (auto simp: str_contains_sublist)

lemma keyword_branch_fields [simp]:
  "files_searched (keyword_branch cfg kws p n c s) = files_searched s"
  "files_skipped (keyword_branch cfg kws p n c s) = files_skipped s"
  "files_error (keyword_branch cfg kws p n c s) = files_error s"
  "visited (keyword_branch cfg kws p n c s) = visited s"
  "exact_matches (keyword_branch cfg kws p n c s) = exact_matches s"
  "phrase_matches (keyword_branch cfg kws p n c s) = phrase_matches s"
  by (simp_all add: keyword_branch_def Let_def)

lemma keyword_branch_total:
  "length (keyword_matches (keyword_branch cfg kws p n c s)) \<le> Suc (length (keyword_matches s))"
  by (simp add: keyword_branch_def Let_def)

lemma match_content_fields [simp]:
  "files_searched (match_content cfg oq ql kws p n c s) = files_searched s"
  "files_skipped (match_content cfg oq ql kws p n c s) = files_skipped s"
  "visited (match_content cfg oq ql kws p n c s) = visited s"
  by (simp_all add: match_content_def Let_def split: option.splits bool.splits)

lemma match_content_total:
  "total_records (match_content cfg oq ql kws p n c s) \<le> Suc (total_records s)"
  using keyword_branch_total [of cfg kws p n c s]
  by (simp add: match_content_def total_records_def Let_def split: option.splits bool.splits)

lemma scan_file_total:
  "total_records (scan_file cfg oq root file s) \<le>
     total_records s + (if candidate cfg file then 1 else 0)"
proof -
  have "total_records (match_content cfg oq ql kws p n c (s\<lparr>visited := v, files_searched := k\<rparr>))
          \<le> Suc (total_records s)" for ql kws p n c v k
    using match_content_total [of cfg oq ql kws p n c "s\<lparr>visited := v, files_searched := k\<rparr>"]
    by (simp add: total_records_def)
  then show ?thesis
    by (simp add: scan_file_def Let_def total_records_def candidate_def split: option.splits)
qed

lemma scan_file_searched:
  "files_searched (scan_file cfg oq root file s) =
     files_searched s + (if candidate cfg file then 1 else 0)"
  by (simp add: scan_file_def candidate_def Let_def split: option.splits)

lemma scan_all_done:
  "MAX_FILES_TO_SEARCH cfg \<le> files_searched s \<Longrightarrow> scan_all cfg oq xs s = s"
  by (cases xs) auto

lemma scan_all_append:
  "scan_all cfg oq (xs @ ys) s = scan_all cfg oq ys (scan_all cfg oq xs s)"
  by (induction xs arbitrary: s) (auto simp: scan_all_done)

lemma scan_files_scan_all:
  "scan_files cfg oq root files s = scan_all cfg oq (map (Pair root) files) s"
  by (induction files arbitrary: s) auto

lemma walk_all_files: "walk cfg oq fs s = scan_all cfg oq (all_files fs) s"
proof (induction fs arbitrary: s)
  case Nil
  show ?case by (simp add: all_files_def)
next
  case (Cons d fs)
  obtain root files where d: "d = (root, files)" by (cases d)
  have af: "all_files ((root, files) # fs) = map (Pair root) files @ all_files fs"
    by (simp add: all_files_def)
  show ?case
    using Cons.IH
    by (simp add: d af scan_all_append scan_files_scan_all Let_def scan_all_done)
qed

lemma scan_all_searched:
  "files_searched s \<le> MAX_FILES_TO_SEARCH cfg \<Longrightarrow>
   files_searched (scan_all cfg oq xs s) =
     min (MAX_FILES_TO_SEARCH cfg)
       (files_searched s + length (filter (\<lambda>x. candidate cfg (snd x)) xs))"
proof (induction xs arbitrary: s)
  case Nil
  then show ?case by simp
next
  case (Cons x xs)
  obtain root fl where x: "x = (root, fl)" by (cases x)
  show ?case
  proof (cases "MAX_FILES_TO_SEARCH cfg \<le> files_searched s")
    case True
    then show ?thesis using Cons.prems by (simp add: x)
  next
    case False
    then have "files_searched (scan_file cfg oq root fl s) \<le> MAX_FILES_TO_SEARCH cfg"
      by (simp add: scan_file_searched)
    from Cons.IH [OF this] False show ?thesis
      by (simp add: x scan_file_searched)
  qed
qed

lemma scan_all_total:
  "total_records s \<le> files_searched s \<Longrightarrow>
   total_records (scan_all cfg oq xs s) \<le> files_searched (scan_all cfg oq xs s)"
proof (induction xs arbitrary: s)
  case Nil
  then show ?case by simp
next
  case (Cons x xs)
  obtain root fl where x: "x = (root, fl)" by (cases x)
  have "total_records (scan_file cfg oq root fl s) \<le> files_searched (scan_file cfg oq root fl s)"
    using scan_file_total [of cfg oq root fl s] Cons.prems
    by (simp add: scan_file_searched)
  from Cons.IH [OF this] Cons.prems show ?case
    by (simp add: x)
qed


lemma all_files_append: "all_files (xs @ ys) = all_files xs @ all_files ys"
  by (simp add: all_files_def)

lemma all_files_single: "all_files [(root, files)] = map (Pair root) files"
  by (simp add: all_files_def)

lemma scan_all_cut:
  "MAX_FILES_TO_SEARCH cfg \<le> length (filter (\<lambda>x. candidate cfg (snd x)) xs) \<Longrightarrow>
   scan_all cfg oq (xs @ ys) init_state = scan_all cfg oq xs init_state"
proof -
  assume a: "MAX_FILES_TO_SEARCH cfg \<le> length (filter (\<lambda>x. candidate cfg (snd x)) xs)"
  have "files_searched (scan_all cfg oq xs init_state) =
          min (MAX_FILES_TO_SEARCH cfg)
            (files_searched init_state + length (filter (\<lambda>x. candidate cfg (snd x)) xs))"
    by (rule scan_all_searched) (simp add: init_state_def)
  then have "MAX_FILES_TO_SEARCH cfg \<le> files_searched (scan_all cfg oq xs init_state)"
    using a by (simp add: init_state_def)
  then show ?thesis
    by (simp add: scan_all_append scan_all_done)
qed

lemma scan_file_visited:
  "visited (scan_file cfg oq root fl s) =
     visited s @ (if has_selected_extension cfg (name fl) then [path_join root (name fl)] else [])"
  by (simp add: scan_file_def Let_def split: option.splits)

text \<open>
  Claim C3. \<open>files_searched\<close> never exceeds \<open>MAX_FILES_TO_SEARCH\<close>: at the end of
  the walk it is the smaller of the limit and the number of candidates in the tree. Once
  the limit is reached the walk stops, in the middle of a directory if need be: when the
  candidates up to some file of a directory already fill the limit, the rest of that
  directory and all later directories change nothing in the result, the log of visited
  files included. With a limit of 2 and 5 candidates, 2 files are searched and only they
  are visited.
\<close>

theorem files_searched_capped:
  "files_searched (walk cfg original_query fs init_state) =
     min (MAX_FILES_TO_SEARCH cfg)
       (length (filter (\<lambda>x. candidate cfg (snd x)) (all_files fs))) \<and>
   files_searched (walk cfg original_query fs init_state) \<le> MAX_FILES_TO_SEARCH cfg \<and>
   (MAX_FILES_TO_SEARCH cfg \<le>
      length (filter (\<lambda>x. candidate cfg (snd x)) (all_files (before @ [(root, files1)]))) \<longrightarrow>
    walk cfg original_query (before @ [(root, files1 @ files2)] @ after) init_state =
      walk cfg original_query (before @ [(root, files1)]) init_state)"
proof (intro conjI impI)
  have s: "files_searched (scan_all cfg original_query (all_files fs) init_state) =
          min (MAX_FILES_TO_SEARCH cfg)
            (files_searched init_state +
             length (filter (\<lambda>x. candidate cfg (snd x)) (all_files fs)))"
    by (rule scan_all_searched) (simp add: init_state_def)
  show "files_searched (walk cfg original_query fs init_state) =
     min (MAX_FILES_TO_SEARCH cfg)
       (length (filter (\<lambda>x. candidate cfg (snd x)) (all_files fs)))"
    using s by (simp add: walk_all_files init_state_def)
  then show "files_searched (walk cfg original_query fs init_state) \<le> MAX_FILES_TO_SEARCH cfg"
    by simp
next
  assume a: "MAX_FILES_TO_SEARCH cfg \<le>
      length (filter (\<lambda>x. candidate cfg (snd x)) (all_files (before @ [(root, files1)])))"
  have "all_files (before @ [(root, files1 @ files2)] @ after) =
          all_files (before @ [(root, files1)]) @ (map (Pair root) files2 @ all_files after)"
    by (simp add: all_files_def)
  then show "walk cfg original_query (before @ [(root, files1 @ files2)] @ after) init_state =
      walk cfg original_query (before @ [(root, files1)]) init_state"
    using scan_all_cut [OF a] by (simp only: walk_all_files)
qed


theorem files_searched_capped_witness:
  "files_searched
     (walk ((default_config [''.txt''])\<lparr> MAX_FILES_TO_SEARCH := 2 \<rparr>) ''fox''
        [(''/d1'', [\<lparr> name = ''1.txt'', getsize = Some 7, read_text = Some ''red fox'' \<rparr>,
                   \<lparr> name = ''2.txt'', getsize = Some 4, read_text = None \<rparr>,
                   \<lparr> name = ''3.txt'', getsize = Some 3, read_text = Some ''fox'' \<rparr>]),
         (''/d2'', [\<lparr> name = ''4.txt'', getsize = Some 3, read_text = Some ''fox'' \<rparr>,
                   \<lparr> name = ''5.txt'', getsize = Some 3, read_text = Some ''fox'' \<rparr>])]
        init_state) = 2 \<and>
   visited
     (walk ((default_config [''.txt''])\<lparr> MAX_FILES_TO_SEARCH := 2 \<rparr>) ''fox''
        [(''/d1'', [\<lparr> name = ''1.txt'', getsize = Some 7, read_text = Some ''red fox'' \<rparr>,
                   \<lparr> name = ''2.txt'', getsize = Some 4, read_text = None \<rparr>,
                   \<lparr> name = ''3.txt'', getsize = Some 3, read_text = Some ''fox'' \<rparr>]),
         (''/d2'', [\<lparr> name = ''4.txt'', getsize = Some 3, read_text = Some ''fox'' \<rparr>,
                   \<lparr> name = ''5.txt'', getsize = Some 3, read_text = Some ''fox'' \<rparr>])]
        init_state) = [''/d1/1.txt'', ''/d1/2.txt'']"
proof -
  let ?cfg = "(default_config [''.txt''])\<lparr> MAX_FILES_TO_SEARCH := 2 \<rparr>"
  let ?f1 = "\<lparr> name = ''1.txt'', getsize = Some 7, read_text = Some ''red fox'' \<rparr>"
  let ?f2 = "\<lparr> name = ''2.txt'', getsize = Some 4, read_text = None :: string option \<rparr>"
  let ?f3 = "\<lparr> name = ''3.txt'', getsize = Some 3, read_text = Some ''fox'' \<rparr>"
  let ?f4 = "\<lparr> name = ''4.txt'', getsize = Some 3, read_text = Some ''fox'' \<rparr>"
  let ?f5 = "\<lparr> name = ''5.txt'', getsize = Some 3, read_text = Some ''fox'' \<rparr>"
  have e: "list_all (\<lambda>n. list_ex (\<lambda>ext. suffix (lower ext) (lower n)) [''.txt''])
             [''1.txt'', ''2.txt'', ''3.txt'', ''4.txt'', ''5.txt'']"
    by code_simp
  have x: "has_selected_extension ?cfg ''1.txt''" "has_selected_extension ?cfg ''2.txt''"
    "has_selected_extension ?cfg ''3.txt''" "has_selected_extension ?cfg ''4.txt''"
    "has_selected_extension ?cfg ''5.txt''"
    using e by (simp_all add: has_selected_extension_def default_config_def)
  have c: "candidate ?cfg ?f1" "candidate ?cfg ?f2" "candidate ?cfg ?f3"
    "candidate ?cfg ?f4" "candidate ?cfg ?f5"
    using x by (simp_all add: candidate_def default_config_def)
  have m: "MAX_FILES_TO_SEARCH ?cfg = 2"
    by simp
  note t = files_searched_capped [of ?cfg "''fox''"
      "[(''/d1'', [?f1, ?f2, ?f3]), (''/d2'', [?f4, ?f5])]" "[]" "''/d1''" "[?f1, ?f2]" "[?f3]"
      "[(''/d2'', [?f4, ?f5])]"]
  have n: "length (filter (\<lambda>x. candidate ?cfg (snd x))
             (all_files [(''/d1'', [?f1, ?f2, ?f3]), (''/d2'', [?f4, ?f5])])) = 5"
    using c by (simp add: all_files_def)
  have n2: "length (filter (\<lambda>x. candidate ?cfg (snd x))
             (all_files ([] @ [(''/d1'', [?f1, ?f2])]))) = 2"
    using c by (simp add: all_files_def)
  have searched: "files_searched
       (walk ?cfg ''fox'' [(''/d1'', [?f1, ?f2, ?f3]), (''/d2'', [?f4, ?f5])] init_state) = 2"
    using t n m by simp
  have cut: "walk ?cfg ''fox'' [(''/d1'', [?f1, ?f2, ?f3]), (''/d2'', [?f4, ?f5])] init_state =
      walk ?cfg ''fox'' [(''/d1'', [?f1, ?f2])] init_state"
    using t n2 m by simp
  have s0: "files_searched init_state = 0" "visited init_state = []"
    by (simp_all add: init_state_def)
  have v: "visited (walk ?cfg ''fox'' [(''/d1'', [?f1, ?f2])] init_state) =
      [''/d1/1.txt'', ''/d1/2.txt'']"
    using c x s0 m
    by (simp add: walk_all_files all_files_def scan_file_searched scan_file_visited path_join_def)
  show ?thesis
    using searched cut v by simp
qed

section \<open>Properties of the combined result list\<close>

lemma sort_by_relevance_stable_descending: "stable_descending rs (sort_by_relevance rs)"
proof -
  let ?f = "\<lambda>x. - int (relevance x)"
  have "sorted (map ?f (sort_key ?f rs))"
    by (rule sorted_sort_key)
  then have "sorted_wrt (\<lambda>x y. ?f x \<le> ?f y) (sort_key ?f rs)"
    by (simp add: sorted_map)
  then have a: "sorted_wrt (\<lambda>x y. relevance x \<ge> relevance y) (sort_key ?f rs)"
    by (rule sorted_wrt_mono_rel [rotated]) simp
  have b: "mset (sort_key ?f rs) = mset rs"
    by simp
  have c: "filter (\<lambda>r. relevance r = k) (sort_key ?f rs) = filter (\<lambda>r. relevance r = k) rs" for k
    using sort_key_stable [of ?f "- int k" rs] by simp
  show ?thesis
    unfolding stable_descending_def sort_by_relevance_def using a b c by blast
qed

lemma search_files_Report:
  "keywords_of (strip query) \<noteq> [] \<Longrightarrow>
   \<exists>response. search_files cfg fmt1f fs query =
     Report response
       (sort_by_relevance (exact_matches (walk cfg (strip query) fs init_state)) @
        sort_by_relevance (phrase_matches (walk cfg (strip query) fs init_state)) @
        sort_by_relevance (keyword_matches (walk cfg (strip query) fs init_state)))
       ((walk cfg (strip query) fs init_state)
          \<lparr> exact_matches := sort_by_relevance (exact_matches (walk cfg (strip query) fs init_state)),
            phrase_matches := sort_by_relevance (phrase_matches (walk cfg (strip query) fs init_state)),
            keyword_matches := sort_by_relevance (keyword_matches (walk cfg (strip query) fs init_state)) \<rparr>)"
  by (simp add: search_files_def Let_def)

lemma search_files_EmptyQuery:
  "keywords_of (strip query) = [] \<Longrightarrow>
   search_files cfg fmt1f fs query =
     EmptyQuery ''Please provide meaningful search terms (2+ characters)'' []"
  by (simp add: search_files_def Let_def)

text \<open>
  Claim C8. When the walk is over, each of the three lists is sorted by descending score,
  records of equal score staying in the order in which the walk found them, and the
  combined list is the sorted \<open>exact_matches\<close>, then the sorted \<open>phrase_matches\<close>,
  then the sorted \<open>keyword_matches\<close>.
\<close>

theorem buckets_sorted_then_concatenated:
  "search_files cfg fmt1f fs query = Report response results s \<longrightarrow>
     results = exact_matches s @ phrase_matches s @ keyword_matches s \<and>
     stable_descending (exact_matches (walk cfg (strip query) fs init_state)) (exact_matches s) \<and>
     stable_descending (phrase_matches (walk cfg (strip query) fs init_state)) (phrase_matches s) \<and>
     stable_descending (keyword_matches (walk cfg (strip query) fs init_state)) (keyword_matches s)"
proof
  assume r: "search_files cfg fmt1f fs query = Report response results s"
  have ne: "keywords_of (strip query) \<noteq> []"
  proof
    assume "keywords_of (strip query) = []"
    from search_files_EmptyQuery [OF this, of cfg fmt1f fs] r show False by simp
  qed
  from search_files_Report [OF ne, of cfg fmt1f fs] r
  have res: "results =
       sort_by_relevance (exact_matches (walk cfg (strip query) fs init_state)) @
       sort_by_relevance (phrase_matches (walk cfg (strip query) fs init_state)) @
       sort_by_relevance (keyword_matches (walk cfg (strip query) fs init_state))"
    and st: "s = (walk cfg (strip query) fs init_state)
          \<lparr> exact_matches := sort_by_relevance (exact_matches (walk cfg (strip query) fs init_state)),
            phrase_matches := sort_by_relevance (phrase_matches (walk cfg (strip query) fs init_state)),
            keyword_matches := sort_by_relevance (keyword_matches (walk cfg (strip query) fs init_state)) \<rparr>"
    by auto
  show "results = exact_matches s @ phrase_matches s @ keyword_matches s \<and>
     stable_descending (exact_matches (walk cfg (strip query) fs init_state)) (exact_matches s) \<and>
     stable_descending (phrase_matches (walk cfg (strip query) fs init_state)) (phrase_matches s) \<and>
     stable_descending (keyword_matches (walk cfg (strip query) fs init_state)) (keyword_matches s)"
    unfolding res st by (simp add: sort_by_relevance_stable_descending)
qed


theorem buckets_sorted_then_concatenated_witness:
  "\<exists>response results s.
     search_files
       \<lparr> MAX_FILE_SIZE = 100, MAX_SNIPPET_LENGTH = 200, MAX_RESULTS_DISPLAY = 8,
        MAX_TOTAL_RESPONSE_LENGTH = 500, MAX_FILES_TO_SEARCH = 10,
        selected_extensions = [''.txt''] \<rparr>
       (\<lambda>a b. [])
       [(''/d'',
         [\<lparr> name = ''a.txt'', getsize = Some 9, read_text = Some ''quick fox'' \<rparr>,
          \<lparr> name = ''b.txt'', getsize = Some 19, read_text = Some ''quick fox quick fox'' \<rparr>,
          \<lparr> name = ''c.txt'', getsize = Some 10, read_text = Some ''Quick Fox!'' \<rparr>,
          \<lparr> name = ''d.txt'', getsize = Some 8, read_text = Some ''foxquick'' \<rparr>])]
       '' quick fox '' = Report response results s \<and>
     results = exact_matches s @ phrase_matches s @ keyword_matches s \<and>
     map path results = [''/d/b.txt'', ''/d/a.txt'', ''/d/c.txt'', ''/d/d.txt''] \<and>
     map relevance results = [1200, 1100, 1100, 10]"
proof -
  let ?cfg = "\<lparr> MAX_FILE_SIZE = 100, MAX_SNIPPET_LENGTH = 200, MAX_RESULTS_DISPLAY = 8,
        MAX_TOTAL_RESPONSE_LENGTH = 500, MAX_FILES_TO_SEARCH = 10,
        selected_extensions = [''.txt''] \<rparr>"
  let ?fs = "[(''/d'',
         [\<lparr> name = ''a.txt'', getsize = Some 9, read_text = Some ''quick fox'' \<rparr>,
          \<lparr> name = ''b.txt'', getsize = Some 19, read_text = Some ''quick fox quick fox'' \<rparr>,
          \<lparr> name = ''c.txt'', getsize = Some 10, read_text = Some ''Quick Fox!'' \<rparr>,
          \<lparr> name = ''d.txt'', getsize = Some 8, read_text = Some ''foxquick'' \<rparr>])]"
  let ?w = "walk ?cfg (strip '' quick fox '') ?fs init_state"
  have w: "?w =
     \<lparr> exact_matches =
         [\<lparr> path = ''/d/a.txt'', filename = ''a.txt'', snippet = ''quick fox'',
             size_bytes = 9, relevance = 1100, match_type = ''EXACT MATCH'' \<rparr>,
          \<lparr> path = ''/d/b.txt'', filename = ''b.txt'', snippet = ''quick fox quick fox'',
             size_bytes = 19, relevance = 1200, match_type = ''EXACT MATCH'' \<rparr>,
          \<lparr> path = ''/d/c.txt'', filename = ''c.txt'', snippet = ''Quick Fox!'',
             size_bytes = 10, relevance = 1100, match_type = ''EXACT MATCH'' \<rparr>],
       phrase_matches = [],
       keyword_matches =
         [\<lparr> path = ''/d/d.txt'', filename = ''d.txt'', snippet = ''foxquick'',
             size_bytes = 8, relevance = 10, match_type = ''KEYWORD MATCH'' \<rparr>],
       files_searched = 4, files_skipped = 0, files_error = 0,
       visited = [''/d/a.txt'', ''/d/b.txt'', ''/d/c.txt'', ''/d/d.txt''] \<rparr>"
    by code_simp
  have k: "keywords_of (strip '' quick fox '') \<noteq> []"
    by code_simp
  let ?res = "sort_by_relevance (exact_matches ?w) @ sort_by_relevance (phrase_matches ?w) @
      sort_by_relevance (keyword_matches ?w)"
  let ?s = "?w\<lparr> exact_matches := sort_by_relevance (exact_matches ?w),
      phrase_matches := sort_by_relevance (phrase_matches ?w),
      keyword_matches := sort_by_relevance (keyword_matches ?w) \<rparr>"
  obtain response where
    r: "search_files ?cfg (\<lambda>a b. []) ?fs '' quick fox '' = Report response ?res ?s"
    using search_files_Report [OF k, of ?cfg "\<lambda>a b. []" ?fs] by blast
  have c: "?res = exact_matches ?s @ phrase_matches ?s @ keyword_matches ?s"
    using buckets_sorted_then_concatenated [of ?cfg "\<lambda>a b. []" ?fs "'' quick fox ''" response ?res ?s] r
    by blast
  have p: "map path ?res = [''/d/b.txt'', ''/d/a.txt'', ''/d/c.txt'', ''/d/d.txt'']"
    unfolding w by (simp add: sort_by_relevance_def)
  have q: "map relevance ?res = [1200, 1100, 1100, 10]"
    unfolding w by (simp add: sort_by_relevance_def)
  show ?thesis
    by (rule exI [of _ response], rule exI [of _ ?res], rule exI [of _ ?s], intro conjI)
      (rule r c p q)+
qed

section \<open>Unreadable files\<close>

lemma found_all_not_None:
  "\<forall>k \<in> set ks. map_of wp k \<noteq> None \<Longrightarrow> found_all wp p ks \<noteq> None"
  by (induction ks) (auto split: option.splits)

lemma any_anchor_not_None:
  "\<forall>k \<in> set ks. map_of wp k \<noteq> None \<Longrightarrow> any_anchor wp ks ps \<noteq> None"
proof (induction ps)
  case Nil
  show ?case by simp
next
  case (Cons p ps)
  obtain b where "found_all wp p ks = Some b"
    using found_all_not_None [OF Cons.prems, of p] by auto
  then show ?case using Cons by (cases b) auto
qed

lemma check_phrase_proximity_not_None: "check_phrase_proximity content keywords \<noteq> None"
proof (cases "length keywords < 2")
  case True
  then show ?thesis by (auto simp add: check_phrase_proximity_def)
next
  case False
  let ?wp = "collect_positions keywords (enumerate 0 (split_ws content)) []"
  show ?thesis
  proof (cases "length ?wp = length keywords")
    case False
    then show ?thesis by (auto simp add: check_phrase_proximity_def Let_def)
  next
    case True
    have d: "distinct (map fst ?wp)" and s: "set (map fst ?wp) \<subseteq> set keywords"
      using collect_positions_keys [of "[]" "keywords" "enumerate 0 (split_ws content)"] by simp_all
    have "card (set (map fst ?wp)) = length ?wp"
      using d distinct_card [of "map fst ?wp"] by simp
    then have "card (set keywords) \<le> card (set (map fst ?wp))"
      using True card_length [of "keywords"] by simp
    then have eq: "set (map fst ?wp) = set keywords"
      using s by (intro card_seteq) simp_all
    have all: "\<forall>k \<in> set keywords. map_of ?wp k \<noteq> None"
      using eq by (simp add: map_of_eq_None_iff)
    have k0: "keywords ! 0 \<in> set keywords"
      using \<open>\<not> length keywords < 2\<close> by (cases "keywords") auto
    have rest: "\<forall>k \<in> set (drop 1 keywords). map_of ?wp k \<noteq> None"
      using all by (meson in_set_dropD)
    obtain first where f: "map_of ?wp (keywords ! 0) = Some first"
      using all k0 by blast
    show ?thesis
      using True \<open>\<not> length keywords < 2\<close> f any_anchor_not_None [OF rest, of first]
      by (simp add: check_phrase_proximity_def Let_def)
  qed
qed

lemma match_content_files_error [simp]:
  "files_error (match_content cfg oq ql kws p n c s) = files_error s"
proof -
  obtain b where "check_phrase_proximity (lower c) kws = Some b"
    using check_phrase_proximity_not_None [of "lower c" kws] by auto
  then show ?thesis
    by (cases b) (simp_all add: match_content_def Let_def)
qed

lemma scan_file_error:
  "files_error (scan_file cfg oq root fl s) =
     files_error s + (if unreadable cfg fl then 1 else 0)"
  by (simp add: scan_file_def unreadable_def Let_def split: option.splits)

lemma scan_file_unreadable:
  "unreadable cfg fl \<Longrightarrow>
   exact_matches (scan_file cfg oq root fl s) = exact_matches s \<and>
   phrase_matches (scan_file cfg oq root fl s) = phrase_matches s \<and>
   keyword_matches (scan_file cfg oq root fl s) = keyword_matches s"
  by (simp add: scan_file_def unreadable_def Let_def split: option.splits)

lemma scan_all_mono: "files_searched s \<le> files_searched (scan_all cfg oq xs s)"
proof (induction xs arbitrary: s)
  case Nil
  show ?case by simp
next
  case (Cons x xs)
  obtain root fl where x: "x = (root, fl)" by (cases x)
  have "files_searched s \<le> files_searched (scan_file cfg oq root fl s)"
    by (simp add: scan_file_searched)
  then show ?case
    using Cons [of "scan_file cfg oq root fl s"] by (simp add: x)
qed

lemma scan_all_complete:
  "files_searched (scan_all cfg oq xs s) < MAX_FILES_TO_SEARCH cfg \<Longrightarrow>
   visited (scan_all cfg oq xs s) =
     visited s @ map (\<lambda>x. path_join (fst x) (name (snd x)))
       (filter (\<lambda>x. has_selected_extension cfg (name (snd x))) xs) \<and>
   files_error (scan_all cfg oq xs s) =
     files_error s + length (filter (\<lambda>x. unreadable cfg (snd x)) xs)"
proof (induction xs arbitrary: s)
  case Nil
  show ?case by simp
next
  case (Cons x xs)
  obtain root fl where x: "x = (root, fl)" by (cases x)
  have below: "files_searched s < MAX_FILES_TO_SEARCH cfg"
    using Cons.prems scan_all_mono [of s cfg oq "x # xs"] by simp
  then have step: "scan_all cfg oq (x # xs) s = scan_all cfg oq xs (scan_file cfg oq root fl s)"
    by (simp add: x)
  have "files_searched (scan_all cfg oq xs (scan_file cfg oq root fl s)) < MAX_FILES_TO_SEARCH cfg"
    using Cons.prems step by simp
  from Cons.IH [OF this] show ?case
    unfolding step by (simp add: x scan_file_visited scan_file_error)
qed


lemma search_files_response:
  "search_files cfg fmt1f fs query = Report response results s \<Longrightarrow>
   response =
     format_prioritized_results cfg fmt1f results (files_searched s) (files_skipped s)
       (strip query) (exact_matches s) (phrase_matches s) (keyword_matches s) @
     (if files_error s > 0 then error_footer (files_error s) else [])"
  by (auto simp: search_files_def Let_def split: if_splits)

lemma decimal_value_snoc:
  "decimal_value (s @ [c]) = 10 * decimal_value s + (of_char c - 48)"
  by (simp add: decimal_value_def)

lemma decimal_value_str_nat: "decimal_value (str_nat n) = n"
proof (induction n rule: str_nat.induct)
  case (1 n)
  show ?case
  proof (cases "n < 10")
    case True
    then show ?thesis
      by (subst str_nat.simps) (simp add: decimal_value_def)
  next
    case False
    have "decimal_value (str_nat n) =
        10 * decimal_value (str_nat (n div 10)) + (of_char (char_of (48 + n mod 10) :: char) - 48)"
      using False by (subst str_nat.simps) (simp add: decimal_value_snoc)
    also have "\<dots> = 10 * (n div 10) + n mod 10"
      using 1 [OF False] by simp
    finally show ?thesis by simp
  qed
qed

lemma digits_str_nat:
  "list_all (\<lambda>c. 48 \<le> (of_char c :: nat) \<and> (of_char c :: nat) \<le> 57) (str_nat n)"
proof (induction n rule: str_nat.induct)
  case (1 n)
  show ?case
  proof (cases "n < 10")
    case True
    then show ?thesis
      by (subst str_nat.simps) simp
  next
    case False
    have "n mod 10 < 10" by simp
    then have "(48 + n mod 10) mod 256 = 48 + n mod 10" "n mod 10 \<le> 9"
      by simp_all
    then show ?thesis
      using 1 [OF False] False by (subst str_nat.simps) simp
  qed
qed

lemma search_files_state:
  "search_files cfg fmt1f fs query = Report response results s \<Longrightarrow>
   files_error s = files_error (walk cfg (strip query) fs init_state) \<and>
   visited s = visited (walk cfg (strip query) fs init_state)"
  by (auto simp: search_files_def Let_def split: if_splits)

text \<open>
  Claim C7. A file on which sizing or reading raises is handled in the body of the loop:
  its scan adds one to \<open>files_error\<close> and appends no record to any of the three lists.
  The walk goes on with the next file: unless the limit on searched files stops it, it
  visits every file with a selected extension, and \<open>files_error\<close> ends as the number
  of unreadable files in the tree. The report of \<open>search_files\<close> carries the
  \<open>files_error\<close> of its walk; when it is zero the report is the formatted text alone,
  and when it is not zero the report is the formatted text followed by one more line: a
  line break, the number in decimal digits, and the words that say that so many files
  could not be read.
\<close>

theorem unreadable_counted_scan_goes_on:
  "(unreadable cfg fl \<longrightarrow>
      files_error (scan_file cfg original_query root fl s) = files_error s + 1 \<and>
      exact_matches (scan_file cfg original_query root fl s) = exact_matches s \<and>
      phrase_matches (scan_file cfg original_query root fl s) = phrase_matches s \<and>
      keyword_matches (scan_file cfg original_query root fl s) = keyword_matches s) \<and>
   (files_searched (walk cfg original_query fs init_state) < MAX_FILES_TO_SEARCH cfg \<longrightarrow>
      visited (walk cfg original_query fs init_state) =
        map (\<lambda>x. path_join (fst x) (name (snd x)))
          (filter (\<lambda>x. has_selected_extension cfg (name (snd x))) (all_files fs)) \<and>
      files_error (walk cfg original_query fs init_state) =
        length (filter (\<lambda>x. unreadable cfg (snd x)) (all_files fs))) \<and>
   (search_files cfg fmt1f fs query = Report response results st \<longrightarrow>
      files_error st = files_error (walk cfg (strip query) fs init_state) \<and>
      response =
        format_prioritized_results cfg fmt1f results (files_searched st) (files_skipped st)
          (strip query) (exact_matches st) (phrase_matches st) (keyword_matches st) @
        (if 0 < files_error st
         then ''\<newline>'' @ str_nat (files_error st) @ '' files couldn'' @ [CHR 0x27] @
              ''t be read (permissions/encoding issues)''
         else [])) \<and>
   decimal_value (str_nat n) = n \<and>
   list_all (\<lambda>c. 48 \<le> (of_char c :: nat) \<and> (of_char c :: nat) \<le> 57) (str_nat n)"
proof (intro conjI impI)
  assume u: "unreadable cfg fl"
  show "files_error (scan_file cfg original_query root fl s) = files_error s + 1"
    using u by (simp add: scan_file_error)
  show "exact_matches (scan_file cfg original_query root fl s) = exact_matches s"
    using scan_file_unreadable [OF u] by blast
  show "phrase_matches (scan_file cfg original_query root fl s) = phrase_matches s"
    using scan_file_unreadable [OF u] by blast
  show "keyword_matches (scan_file cfg original_query root fl s) = keyword_matches s"
    using scan_file_unreadable [OF u] by blast
next
  assume b: "files_searched (walk cfg original_query fs init_state) < MAX_FILES_TO_SEARCH cfg"
  then have b': "files_searched (scan_all cfg original_query (all_files fs) init_state)
      < MAX_FILES_TO_SEARCH cfg"
    by (simp only: walk_all_files)
  note c = scan_all_complete [OF b']
  show "visited (walk cfg original_query fs init_state) =
        map (\<lambda>x. path_join (fst x) (name (snd x)))
          (filter (\<lambda>x. has_selected_extension cfg (name (snd x))) (all_files fs))"
    using c by (simp add: walk_all_files init_state_def)
  show "files_error (walk cfg original_query fs init_state) =
        length (filter (\<lambda>x. unreadable cfg (snd x)) (all_files fs))"
    using c by (simp add: walk_all_files init_state_def)
next
  assume r: "search_files cfg fmt1f fs query = Report response results st"
  show "files_error st = files_error (walk cfg (strip query) fs init_state)"
    using search_files_state [OF r] by blast
  show "response =
        format_prioritized_results cfg fmt1f results (files_searched st) (files_skipped st)
          (strip query) (exact_matches st) (phrase_matches st) (keyword_matches st) @
        (if 0 < files_error st
         then ''\<newline>'' @ str_nat (files_error st) @ '' files couldn'' @ [CHR 0x27] @
              ''t be read (permissions/encoding issues)''
         else [])"
    using search_files_response [OF r] by (simp add: error_footer_def sq_def)
next
  show "decimal_value (str_nat n) = n"
    by (rule decimal_value_str_nat)
  show "list_all (\<lambda>c. 48 \<le> (of_char c :: nat) \<and> (of_char c :: nat) \<le> 57) (str_nat n)"
    by (rule digits_str_nat)
qed

theorem unreadable_counted_scan_goes_on_witness:
  "files_error
     (walk \<lparr> MAX_FILE_SIZE = 100, MAX_SNIPPET_LENGTH = 200, MAX_RESULTS_DISPLAY = 8,
        MAX_TOTAL_RESPONSE_LENGTH = 500, MAX_FILES_TO_SEARCH = 10,
        selected_extensions = [''.txt''] \<rparr> ''fox''
        [(''/d'',
         [\<lparr> name = ''a.txt'', getsize = Some 7, read_text = Some ''red fox'' \<rparr>,
          \<lparr> name = ''b.txt'', getsize = None, read_text = Some ''fox'' \<rparr>,
          \<lparr> name = ''c.txt'', getsize = Some 5, read_text = None \<rparr>,
          \<lparr> name = ''d.txt'', getsize = Some 3, read_text = Some ''fox'' \<rparr>])]
        init_state) = 2 \<and>
   visited
     (walk \<lparr> MAX_FILE_SIZE = 100, MAX_SNIPPET_LENGTH = 200, MAX_RESULTS_DISPLAY = 8,
        MAX_TOTAL_RESPONSE_LENGTH = 500, MAX_FILES_TO_SEARCH = 10,
        selected_extensions = [''.txt''] \<rparr> ''fox''
        [(''/d'',
         [\<lparr> name = ''a.txt'', getsize = Some 7, read_text = Some ''red fox'' \<rparr>,
          \<lparr> name = ''b.txt'', getsize = None, read_text = Some ''fox'' \<rparr>,
          \<lparr> name = ''c.txt'', getsize = Some 5, read_text = None \<rparr>,
          \<lparr> name = ''d.txt'', getsize = Some 3, read_text = Some ''fox'' \<rparr>])]
        init_state) = [''/d/a.txt'', ''/d/b.txt'', ''/d/c.txt'', ''/d/d.txt''] \<and>
   (\<exists>response results st.
      search_files \<lparr> MAX_FILE_SIZE = 100, MAX_SNIPPET_LENGTH = 200, MAX_RESULTS_DISPLAY = 8,
        MAX_TOTAL_RESPONSE_LENGTH = 500, MAX_FILES_TO_SEARCH = 10,
        selected_extensions = [''.txt''] \<rparr> (\<lambda>a b. [])
        [(''/d'',
         [\<lparr> name = ''a.txt'', getsize = Some 7, read_text = Some ''red fox'' \<rparr>,
          \<lparr> name = ''b.txt'', getsize = None, read_text = Some ''fox'' \<rparr>,
          \<lparr> name = ''c.txt'', getsize = Some 5, read_text = None \<rparr>,
          \<lparr> name = ''d.txt'', getsize = Some 3, read_text = Some ''fox'' \<rparr>])]
        ''fox'' = Report response results st \<and>
      map path results = [''/d/a.txt'', ''/d/d.txt''] \<and>
      files_error st = 2 \<and>
      response =
        format_prioritized_results \<lparr> MAX_FILE_SIZE = 100, MAX_SNIPPET_LENGTH = 200,
            MAX_RESULTS_DISPLAY = 8, MAX_TOTAL_RESPONSE_LENGTH = 500, MAX_FILES_TO_SEARCH = 10,
            selected_extensions = [''.txt''] \<rparr> (\<lambda>a b. []) results 3 0 ''fox''
            (exact_matches st) [] [] @
        ''\<newline>2 files couldn'' @ [CHR 0x27] @ ''t be read (permissions/encoding issues)'') \<and>
   decimal_value (str_nat 2) = 2"
proof -
  let ?cfg = "\<lparr> MAX_FILE_SIZE = 100, MAX_SNIPPET_LENGTH = 200, MAX_RESULTS_DISPLAY = 8,
        MAX_TOTAL_RESPONSE_LENGTH = 500, MAX_FILES_TO_SEARCH = 10,
        selected_extensions = [''.txt''] \<rparr>"
  let ?fs = "[(''/d'',
         [\<lparr> name = ''a.txt'', getsize = Some 7, read_text = Some ''red fox'' \<rparr>,
          \<lparr> name = ''b.txt'', getsize = None, read_text = Some ''fox'' \<rparr>,
          \<lparr> name = ''c.txt'', getsize = Some 5, read_text = None \<rparr>,
          \<lparr> name = ''d.txt'', getsize = Some 3, read_text = Some ''fox'' \<rparr>])]"
  let ?b = "\<lparr> name = ''b.txt'', getsize = None, read_text = Some ''fox'' \<rparr>"
  let ?c = "\<lparr> name = ''c.txt'', getsize = Some 5, read_text = None :: string option \<rparr>"
  let ?w = "walk ?cfg ''fox'' ?fs init_state"
  have st: "strip ''fox'' = ''fox''"
    by code_simp
  have w: "?w =
     \<lparr> exact_matches =
         [\<lparr> path = ''/d/a.txt'', filename = ''a.txt'', snippet = ''red fox'',
             size_bytes = 7, relevance = 1100, match_type = ''EXACT MATCH'' \<rparr>,
          \<lparr> path = ''/d/d.txt'', filename = ''d.txt'', snippet = ''fox'',
             size_bytes = 3, relevance = 1100, match_type = ''EXACT MATCH'' \<rparr>],
       phrase_matches = [], keyword_matches = [],
       files_searched = 3, files_skipped = 0, files_error = 2,
       visited = [''/d/a.txt'', ''/d/b.txt'', ''/d/c.txt'', ''/d/d.txt''] \<rparr>"
    by code_simp
  have k: "keywords_of (strip ''fox'') \<noteq> []"
    by code_simp
  have u: "unreadable ?cfg ?b" "unreadable ?cfg ?c"
    by code_simp+
  let ?res = "sort_by_relevance (exact_matches ?w) @ sort_by_relevance (phrase_matches ?w) @
      sort_by_relevance (keyword_matches ?w)"
  let ?s = "?w\<lparr> exact_matches := sort_by_relevance (exact_matches ?w),
      phrase_matches := sort_by_relevance (phrase_matches ?w),
      keyword_matches := sort_by_relevance (keyword_matches ?w) \<rparr>"
  obtain response where
    r: "search_files ?cfg (\<lambda>a b. []) ?fs ''fox'' = Report response ?res ?s"
    using search_files_Report [OF k, of ?cfg "\<lambda>a b. []" ?fs] unfolding st by blast
  note t = unreadable_counted_scan_goes_on [of ?cfg ?b "''fox''" "''/d''" init_state ?fs
      "\<lambda>a b. []" "''fox''" response ?res ?s 2]
  have two: "str_nat 2 = ''2''"
    by code_simp
  have e: "files_error ?s = 2"
    unfolding w by simp
  have below: "files_searched ?w < MAX_FILES_TO_SEARCH ?cfg"
    unfolding w by simp
  have one: "files_error (scan_file ?cfg ''fox'' ''/d'' ?b init_state) = files_error init_state + 1"
    using t u(1) by blast
  have err: "files_error ?w = length (filter (\<lambda>x. unreadable ?cfg (snd x)) (all_files ?fs))"
    using t below by blast
  have foot: "response =
        format_prioritized_results ?cfg (\<lambda>a b. []) ?res (files_searched ?s) (files_skipped ?s)
          (strip ''fox'') (exact_matches ?s) (phrase_matches ?s) (keyword_matches ?s) @
        (if 0 < files_error ?s
         then ''\<newline>'' @ str_nat (files_error ?s) @ '' files couldn'' @ [CHR 0x27] @
              ''t be read (permissions/encoding issues)''
         else [])"
    using t r by blast
  have foot2: "response =
        format_prioritized_results ?cfg (\<lambda>a b. []) ?res 3 0 ''fox'' (exact_matches ?s) [] [] @
        ''\<newline>2 files couldn'' @ [CHR 0x27] @ ''t be read (permissions/encoding issues)''"
    using foot unfolding st w by (simp add: two sort_by_relevance_def)
  have dec: "decimal_value (str_nat 2) = 2"
    using t by blast
  have p: "map path ?res = [''/d/a.txt'', ''/d/d.txt'']"
    unfolding w by (simp add: sort_by_relevance_def)
  have c1: "files_error ?w = 2" and c2: "visited ?w = [''/d/a.txt'', ''/d/b.txt'', ''/d/c.txt'', ''/d/d.txt'']"
    unfolding w by simp_all
  have c3: "\<exists>response results st.
      search_files ?cfg (\<lambda>a b. []) ?fs ''fox'' = Report response results st \<and>
      map path results = [''/d/a.txt'', ''/d/d.txt''] \<and>
      files_error st = 2 \<and>
      response =
        format_prioritized_results ?cfg (\<lambda>a b. []) results 3 0 ''fox'' (exact_matches st) [] [] @
        ''\<newline>2 files couldn'' @ [CHR 0x27] @ ''t be read (permissions/encoding issues)''"
    by (rule exI [of _ response], rule exI [of _ ?res], rule exI [of _ ?s], intro conjI)
      (rule r, rule p, rule e, rule foot2)
  show ?thesis
    using c1 c2 c3 dec by (intro conjI)
qed

section \<open>The three tiers\<close>


lemma matches_in_tier_Nil [simp]: "matches_in_tier cfg oq [] t = []"
  by (simp add: matches_in_tier_def map_filter_def)














section \<open>The score of an exact match\<close>

lemma occurs_apart_prepend:
  "occurs_apart sub s k \<Longrightarrow> occurs_apart sub (pre @ s) k"
proof -
  assume "occurs_apart sub s k"
  then obtain gaps rest where g: "length gaps = k" "s = concat (map (\<lambda>g. g @ sub) gaps) @ rest"
    unfolding occurs_apart_def by blast
  show ?thesis
  proof (cases gaps)
    case Nil
    then have "length ([] :: string list) = k \<and> pre @ s = concat (map (\<lambda>g. g @ sub) []) @ (pre @ s)"
      using g by simp
    then show ?thesis unfolding occurs_apart_def by blast
  next
    case (Cons g0 gs)
    then have "length ((pre @ g0) # gs) = k \<and>
        pre @ s = concat (map (\<lambda>g. g @ sub) ((pre @ g0) # gs)) @ rest"
      using g by simp
    then show ?thesis unfolding occurs_apart_def by blast
  qed
qed

lemma occurs_apart_0: "occurs_apart sub s 0"
  unfolding occurs_apart_def by simp

lemma occurs_apart_Suc:
  "occurs_apart sub s (Suc k) \<longleftrightarrow> (\<exists>g t. s = g @ sub @ t \<and> occurs_apart sub t k)"
proof
  assume "occurs_apart sub s (Suc k)"
  then obtain gaps rest where g: "length gaps = Suc k" "s = concat (map (\<lambda>g. g @ sub) gaps) @ rest"
    unfolding occurs_apart_def by blast
  then obtain g0 gs where c: "gaps = g0 # gs" by (cases gaps) auto
  have "s = g0 @ sub @ (concat (map (\<lambda>g. g @ sub) gs) @ rest)" using g c by simp
  moreover have "occurs_apart sub (concat (map (\<lambda>g. g @ sub) gs) @ rest) k"
    unfolding occurs_apart_def using g c by auto
  ultimately show "\<exists>g t. s = g @ sub @ t \<and> occurs_apart sub t k" by blast
next
  assume "\<exists>g t. s = g @ sub @ t \<and> occurs_apart sub t k"
  then obtain g t gaps rest where
    s: "s = g @ sub @ t" and l: "length gaps = k" and t: "t = concat (map (\<lambda>g. g @ sub) gaps) @ rest"
    unfolding occurs_apart_def by blast
  have "length (g # gaps) = Suc k \<and> s = concat (map (\<lambda>g. g @ sub) (g # gaps)) @ rest"
    using s l t by simp
  then show "occurs_apart sub s (Suc k)" unfolding occurs_apart_def by blast
qed

lemma str_count_upper:
  "sub \<noteq> [] \<Longrightarrow> occurs_apart sub s k \<Longrightarrow> k \<le> str_count sub s"
proof (induction sub s arbitrary: k rule: str_count.induct)
  case (1 sub s)
  show ?case
  proof (cases k)
    case 0
    then show ?thesis by simp
  next
    case (Suc j)
    then obtain g t where s: "s = g @ sub @ t" and o: "occurs_apart sub t j"
      using "1.prems"(2) occurs_apart_Suc by blast
    have sne: "s \<noteq> []" using s "1.prems"(1) by simp
    show ?thesis
    proof (cases "prefix sub s")
      case True
      have "drop (length sub) s = drop (length sub) (g @ sub) @ t"
        using s by simp
      then have "occurs_apart sub (drop (length sub) s) j"
        using o occurs_apart_prepend [of sub t j "drop (length sub) (g @ sub)"] by simp
      then have "j \<le> str_count sub (drop (length sub) s)"
        using "1.IH"(1) [OF "1.prems"(1) sne True "1.prems"(1)] by blast
      then show ?thesis
        using Suc True sne "1.prems"(1) by (subst str_count.simps) simp
    next
      case False
      then have "g \<noteq> []" using s by (auto simp: prefix_def)
      then obtain c g' where g: "g = c # g'" by (cases g) auto
      have "tl s = g' @ sub @ t" using s g by simp
      then have "occurs_apart sub (tl s) (Suc j)"
        using o occurs_apart_Suc by blast
      then have "Suc j \<le> str_count sub (tl s)"
        using "1.IH"(2) [OF "1.prems"(1) sne False "1.prems"(1)] by blast
      then show ?thesis
        using Suc False sne "1.prems"(1) by (subst str_count.simps) simp
    qed
  qed
qed

lemma str_count_attained:
  "sub \<noteq> [] \<Longrightarrow> occurs_apart sub s (str_count sub s)"
proof (induction sub s rule: str_count.induct)
  case (1 sub s)
  show ?case
  proof (cases "s = []")
    case True
    then show ?thesis using "1.prems" by (subst str_count.simps) (simp add: occurs_apart_0)
  next
    case sne: False
    show ?thesis
    proof (cases "prefix sub s")
      case True
      then obtain t where s: "s = sub @ t" by (auto simp: prefix_def)
      have "occurs_apart sub (drop (length sub) s) (str_count sub (drop (length sub) s))"
        using "1.IH"(1) [OF "1.prems" sne True "1.prems"] .
      then have "occurs_apart sub t (str_count sub t)"
        using s by simp
      then have "occurs_apart sub s (Suc (str_count sub t))"
        using s occurs_apart_Suc [of sub s "str_count sub t"] by (metis append_Nil)
      moreover have "str_count sub s = Suc (str_count sub t)"
        using True sne "1.prems" s by (subst str_count.simps) simp
      ultimately show ?thesis by simp
    next
      case False
      have "occurs_apart sub (tl s) (str_count sub (tl s))"
        using "1.IH"(2) [OF "1.prems" sne False "1.prems"] .
      then have "occurs_apart sub ([hd s] @ tl s) (str_count sub (tl s))"
        by (rule occurs_apart_prepend)
      moreover have "str_count sub s = str_count sub (tl s)"
        using False sne "1.prems" by (subst str_count.simps) simp
      ultimately show ?thesis using sne by simp
    qed
  qed
qed

lemma str_count_is_max:
  "sub \<noteq> [] \<Longrightarrow> occurs_apart sub s k \<longleftrightarrow> k \<le> str_count sub s"
proof
  assume "sub \<noteq> []" "occurs_apart sub s k"
  then show "k \<le> str_count sub s" by (rule str_count_upper)
next
  assume ne: "sub \<noteq> []" and le: "k \<le> str_count sub s"
  from str_count_attained [OF ne, of s]
  obtain gaps rest where g: "length gaps = str_count sub s"
      "s = concat (map (\<lambda>g. g @ sub) gaps) @ rest"
    unfolding occurs_apart_def by blast
  have "s = concat (map (\<lambda>g. g @ sub) (take k gaps)) @
          (concat (map (\<lambda>g. g @ sub) (drop k gaps)) @ rest)"
    using g(2) by (metis append_assoc append_take_drop_id concat_append map_append)
  moreover have "length (take k gaps) = k" using g(1) le by simp
  ultimately show "occurs_apart sub s k" unfolding occurs_apart_def by blast
qed




section \<open>The proximity check against the specification\<close>

lemma map_of_dict_append:
  "map_of (dict_append k i d) k' =
     (if k' = k then Some ((case map_of d k of None \<Rightarrow> [] | Some ps \<Rightarrow> ps) @ [i])
      else map_of d k')"
  by (induction d) auto

lemma map_of_collect_positions:
  "map_of (collect_positions kws ews wp) k =
     (if k \<in> set kws \<and> occurrences_in ews k \<noteq> []
      then Some ((case map_of wp k of None \<Rightarrow> [] | Some ps \<Rightarrow> ps) @ occurrences_in ews k)
      else map_of wp k)"
proof (induction ews arbitrary: wp)
  case Nil
  show ?case by (simp add: occurrences_in_def)
next
  case (Cons iw ews)
  obtain i w where iw: "iw = (i, w)" by (cases iw)
  show ?case
    unfolding iw
    by (simp add: Cons.IH map_of_dict_append occurrences_in_def Let_def split: option.splits)
qed

lemma keys_collect_positions:
  "set (map fst (collect_positions kws ews [])) = {k \<in> set kws. occurrences_in ews k \<noteq> []}"
proof -
  have "k \<in> set (map fst (collect_positions kws ews [])) \<longleftrightarrow>
          k \<in> set kws \<and> occurrences_in ews k \<noteq> []" for k
    using map_of_eq_None_iff [of "collect_positions kws ews []" k]
    by (simp add: map_of_collect_positions split: if_splits)
  then show ?thesis by blast
qed

lemma length_collect_positions_eq:
  assumes "distinct kws"
  shows "length (collect_positions kws ews []) = length kws \<longleftrightarrow>
           (\<forall>k \<in> set kws. occurrences_in ews k \<noteq> [])"
proof -
  let ?wp = "collect_positions kws ews []"
  let ?A = "{k \<in> set kws. occurrences_in ews k \<noteq> []}"
  have d: "distinct (map fst ?wp)"
    using collect_positions_keys [of "[]" kws ews] by simp
  have l: "length ?wp = card ?A"
    using distinct_card [OF d] keys_collect_positions [of kws ews] by simp
  have k: "length kws = card (set kws)"
    using assms distinct_card by fastforce
  have sub: "?A \<subseteq> set kws" by blast
  show ?thesis
  proof
    assume "length ?wp = length kws"
    then have "card ?A = card (set kws)" using l k by simp
    then have "?A = set kws"
      using sub card_subset_eq [of "set kws" ?A] by blast
    then show "\<forall>k \<in> set kws. occurrences_in ews k \<noteq> []" by blast
  next
    assume "\<forall>k \<in> set kws. occurrences_in ews k \<noteq> []"
    then have "?A = set kws" by blast
    then show "length ?wp = length kws" using l k by simp
  qed
qed

lemma found_all_eq:
  "\<forall>k \<in> set ks. map_of wp k = Some (occ k) \<Longrightarrow>
   found_all wp p ks = Some (list_all (\<lambda>t. found_nearby p (occ t)) ks)"
  by (induction ks) auto

lemma any_anchor_eq:
  "\<forall>k \<in> set ks. map_of wp k = Some (occ k) \<Longrightarrow>
   any_anchor wp ks ps = Some (list_ex (\<lambda>p. list_all (\<lambda>t. found_nearby p (occ t)) ks) ps)"
proof (induction ps)
  case Nil
  show ?case by simp
next
  case (Cons p ps)
  show ?case
    using Cons.IH [OF Cons.prems] found_all_eq [OF Cons.prems, of p]
    by (cases "list_all (\<lambda>t. found_nearby p (occ t)) ks") simp_all
qed

lemma check_phrase_proximity_distinct:
  assumes "distinct kws" and "2 \<le> length kws"
  shows "check_phrase_proximity content kws = Some (spec_proximity content kws)"
proof -
  let ?ews = "enumerate 0 (split_ws content)"
  let ?wp = "collect_positions kws ?ews []"
  obtain k0 rest where kws: "kws = k0 # rest"
    using assms(2) by (cases kws) auto
  show ?thesis
  proof (cases "\<forall>k \<in> set kws. occurrences_in ?ews k \<noteq> []")
    case True
    then have len: "length ?wp = length kws"
      using length_collect_positions_eq [OF assms(1)] by blast
    have m: "\<forall>k \<in> set kws. map_of ?wp k = Some (occurrences_in ?ews k)"
      using True by (simp add: map_of_collect_positions)
    then have m0: "map_of ?wp (kws ! 0) = Some (occurrences_in ?ews k0)"
      and mr: "\<forall>k \<in> set rest. map_of ?wp k = Some (occurrences_in ?ews k)"
      by (simp_all add: kws)
    have "check_phrase_proximity content kws =
            any_anchor ?wp (drop 1 kws) (occurrences_in ?ews k0)"
      using assms(2) len m0 by (simp add: check_phrase_proximity_def Let_def)
    also have "\<dots> = Some (list_ex (\<lambda>p. list_all (\<lambda>t. found_nearby p (occurrences_in ?ews t)) rest)
                       (occurrences_in ?ews k0))"
      using any_anchor_eq [OF mr] by (simp add: kws)
    also have "\<dots> = Some (spec_proximity content kws)"
      using True
      by (simp add: spec_proximity_def word_occurrences_def found_nearby_def kws list_all_iff)
    finally show ?thesis .
  next
    case False
    then have "length ?wp \<noteq> length kws"
      using length_collect_positions_eq [OF assms(1)] by blast
    moreover have "\<not> spec_proximity content kws"
      using False by (auto simp: spec_proximity_def word_occurrences_def list_all_iff)
    ultimately show ?thesis
      using assms(2) by (simp add: check_phrase_proximity_def Let_def)
  qed
qed


lemma match_content_phrase_distinct:
  assumes "\<not> str_contains ql (lower c)" and "distinct kws" and "2 \<le> length kws"
  shows "match_content cfg oq ql kws p n c s =
     (if spec_proximity (lower c) kws then
        s\<lparr> phrase_matches := phrase_matches s @
             [\<lparr> path = p, filename = basename p,
                snippet = get_snippet_for_keywords (MAX_SNIPPET_LENGTH cfg) c kws,
                size_bytes = n,
                relevance = 500 + sum_counts (lower c) kws * 10,
                match_type = ''PHRASE MATCH'' \<rparr>] \<rparr>
      else keyword_branch cfg kws p n c s)"
  using assms check_phrase_proximity_distinct [OF assms(2,3), of "lower c"]
  by (simp add: match_content_def Let_def)

text \<open>
  Claim C5. With at least two tokens and a content that is not an exact match, the file
  is a phrase match exactly when the proximity test of the specification holds, and its
  score is then 500 plus 10 times the summed counts: \<open>match_content_phrase_distinct\<close>
  shows this for token lists without repetition. A query that repeats a word is
  different. For the query \<open>the cat and the dog\<close> and a file with the content
  \<open>The dog and the cat\<close> the content does not hold the query, every token occurs and
  all of them lie within 50 words of the first \<open>the\<close>, so the test of the specification
  holds; \<open>check_phrase_proximity\<close> answers \<open>False\<close>, because the dictionary has 4
  entries and the token list 5 elements, and the file is recorded as a keyword match
  with score 35, where the claim gives a phrase match with score 570.
\<close>

theorem repeated_word_query_filed_as_keyword:
  "keywords_of ''the cat and the dog'' = [''the'', ''cat'', ''and'', ''the'', ''dog''] \<and>
   \<not> str_contains (lower ''the cat and the dog'') (lower ''The dog and the cat'') \<and>
   spec_proximity (lower ''The dog and the cat'') (keywords_of ''the cat and the dog'') \<and>
   sum_counts (lower ''The dog and the cat'') (keywords_of ''the cat and the dog'') = 7 \<and>
   check_phrase_proximity (lower ''The dog and the cat'') (keywords_of ''the cat and the dog'')
     = Some False \<and>
   scan_file
     \<lparr> MAX_FILE_SIZE = 100, MAX_SNIPPET_LENGTH = 200, MAX_RESULTS_DISPLAY = 8,
        MAX_TOTAL_RESPONSE_LENGTH = 500, MAX_FILES_TO_SEARCH = 10,
        selected_extensions = [''.txt''] \<rparr>
     ''the cat and the dog'' ''/d''
     \<lparr> name = ''a.txt'', getsize = Some 19, read_text = Some ''The dog and the cat'' \<rparr>
     init_state =
     \<lparr> exact_matches = [], phrase_matches = [],
       keyword_matches =
         [\<lparr> path = ''/d/a.txt'', filename = ''a.txt'', snippet = ''The dog and the cat'',
             size_bytes = 19, relevance = 35, match_type = ''KEYWORD MATCH'' \<rparr>],
       files_searched = 1, files_skipped = 0, files_error = 0, visited = [''/d/a.txt''] \<rparr>"
proof (intro conjI)
  show "keywords_of ''the cat and the dog'' = [''the'', ''cat'', ''and'', ''the'', ''dog'']"
    by code_simp
  show "\<not> str_contains (lower ''the cat and the dog'') (lower ''The dog and the cat'')"
    by code_simp
  show "spec_proximity (lower ''The dog and the cat'') (keywords_of ''the cat and the dog'')"
    by code_simp
  show "sum_counts (lower ''The dog and the cat'') (keywords_of ''the cat and the dog'') = 7"
    by code_simp
  show "check_phrase_proximity (lower ''The dog and the cat'')
      (keywords_of ''the cat and the dog'') = Some False"
    by code_simp
  show "scan_file
     \<lparr> MAX_FILE_SIZE = 100, MAX_SNIPPET_LENGTH = 200, MAX_RESULTS_DISPLAY = 8,
        MAX_TOTAL_RESPONSE_LENGTH = 500, MAX_FILES_TO_SEARCH = 10,
        selected_extensions = [''.txt''] \<rparr>
     ''the cat and the dog'' ''/d''
     \<lparr> name = ''a.txt'', getsize = Some 19, read_text = Some ''The dog and the cat'' \<rparr>
     init_state =
     \<lparr> exact_matches = [], phrase_matches = [],
       keyword_matches =
         [\<lparr> path = ''/d/a.txt'', filename = ''a.txt'', snippet = ''The dog and the cat'',
             size_bytes = 19, relevance = 35, match_type = ''KEYWORD MATCH'' \<rparr>],
       files_searched = 1, files_skipped = 0, files_error = 0, visited = [''/d/a.txt''] \<rparr>"
    by code_simp
qed

end
